theory Spec2Isabelle
  imports Main "HOL-Library.Word"
begin

section \<open>Effects: the error hook, the print callable, the platform adapter\<close>

text \<open>
  The six invocations of \<^verbatim>\<open>QUICKLOG_ERROR\<close> in quicklog.h, by their message:
  \<^item> \<open>SemaphoreUnderflow\<close>: "get called on non-gettable semaphore."
  \<^item> \<open>LoggerFull\<close>: "LocalLogger full. Can't log()"
  \<^item> \<open>EntryTooLarge\<close>: "Log entries bigger than buffer size"
  \<^item> \<open>UnregisteredLogger\<close>: "LocalLogger not registered to LogServer"
  \<^item> \<open>NextIndexFull\<close>: "localLogger full, can't nextIndex()"
  \<^item> \<open>RegistryFull\<close>: "Attempt to add more than maxLoggers loggers to LogServer."
\<close>

datatype error =
  SemaphoreUnderflow | LoggerFull | EntryTooLarge | UnregisteredLogger | NextIndexFull | RegistryFull

text \<open>
  What a run does beyond changing its objects: calls of \<^verbatim>\<open>QUICKLOG_PRINT\<close> with the stored
  values, calls of \<^verbatim>\<open>QUICKLOG_ERROR\<close>, and calls of the platform adapter of a server
  (\<open>Notify\<close> carries the address of the server whose platform is notified).
\<close>

datatype 'v event = Print 'v | Error error | Notify nat | Wait | Lock | Unlock

text \<open>
  \<^verbatim>\<open>QUICKLOG_ERROR\<close> is a macro the host may redefine. The default prints and calls
  \<^verbatim>\<open>exit(1)\<close> (\<open>Terminating\<close>); a redefinition may come back to the caller (\<open>Returning\<close>),
  which \<^verbatim>\<open>LocalLogger::log\<close> provides for with its \<^verbatim>\<open>return\<close> after the macro.
\<close>

datatype hook = Terminating | Returning

text \<open>
  The outcome of a call: it returns a value after some events, or the error hook ends the
  process after some events, or the call has undefined behaviour (an array index out of
  range, a read of arena bytes that hold no record).
\<close>

datatype ('v, 'a) outcome = Returns "'v event list" 'a | Exits "'v event list" | Undefined

fun emit :: "'v event list \<Rightarrow> ('v, 'a) outcome \<Rightarrow> ('v, 'a) outcome" where
  "emit es (Returns es' a) = Returns (es @ es') a"
| "emit es (Exits es') = Exits (es @ es')"
| "emit es Undefined = Undefined"

fun then_do :: "('v, 'a) outcome \<Rightarrow> ('a \<Rightarrow> ('v, 'b) outcome) \<Rightarrow> ('v, 'b) outcome" where
  "then_do (Returns es a) f = emit es (f a)"
| "then_do (Exits es) f = Exits es"
| "then_do Undefined f = Undefined"

fun QUICKLOG_ERROR :: "hook \<Rightarrow> error \<Rightarrow> 'a \<Rightarrow> ('v, 'a) outcome" where
  "QUICKLOG_ERROR Terminating e a = Exits [Error e]"
| "QUICKLOG_ERROR Returning e a = Returns [Error e] a"

section \<open>detail::semaphore\<close>

record semaphore =
  numPuts :: "8 word"
  numGets :: "8 word"

definition semaphore_init :: semaphore where
  "semaphore_init = \<lparr>numPuts = 0, numGets = 0\<rparr>"

definition semaphore_put :: "semaphore \<Rightarrow> semaphore" where
  "semaphore_put s = s\<lparr>numPuts := numPuts s + 1\<rparr>"

definition semaphore_peek :: "semaphore \<Rightarrow> 8 word" where
  "semaphore_peek s = numPuts s - numGets s"

text \<open>The increment of \<open>numGets\<close> follows the \<^verbatim>\<open>if\<close>; it is not in an \<^verbatim>\<open>else\<close>.\<close>

definition semaphore_get :: "hook \<Rightarrow> semaphore \<Rightarrow> ('v, semaphore) outcome" where
  "semaphore_get h s =
     then_do (if numPuts s = numGets s then QUICKLOG_ERROR h SemaphoreUnderflow s
              else Returns [] s)
       (\<lambda>s. Returns [] (s\<lparr>numGets := numGets s + 1\<rparr>))"

subsection \<open>Sequences of calls on a semaphore\<close>

datatype sem_call = Put | Take

fun semaphore_calls :: "hook \<Rightarrow> sem_call list \<Rightarrow> semaphore \<Rightarrow> ('v, semaphore) outcome" where
  "semaphore_calls h [] s = Returns [] s"
| "semaphore_calls h (Put # cs) s = semaphore_calls h cs (semaphore_put s)"
| "semaphore_calls h (Take # cs) s = then_do (semaphore_get h s) (semaphore_calls h cs)"

text \<open>Every \<^verbatim>\<open>get\<close> of the sequence finds a count that is not zero.\<close>

fun takes_guarded :: "sem_call list \<Rightarrow> semaphore \<Rightarrow> bool" where
  "takes_guarded [] s = True"
| "takes_guarded (Put # cs) s = takes_guarded cs (semaphore_put s)"
| "takes_guarded (Take # cs) s =
     (semaphore_peek s \<noteq> 0 \<and> takes_guarded cs (s\<lparr>numGets := numGets s + 1\<rparr>))"

section \<open>detail::alignedSize, detail::LogEntry\<close>

text \<open>
  \<^verbatim>\<open>QUICKLOG_ALIGN\<close> is \<^verbatim>\<open>alignof(std::max_align_t)\<close>, a positive constant of the
  platform (16 on x86-64); it is the first parameter \<open>A\<close> here. Sizes are \<^verbatim>\<open>size_t\<close>;
  they are sizes of objects that exist and offsets into an array that exists, so their sums
  stay below \<open>2 ^ 64\<close> and are modelled as \<open>nat\<close>.
\<close>

definition alignedSize :: "nat \<Rightarrow> nat \<Rightarrow> nat" where
  "alignedSize A sz = (if sz mod A \<noteq> 0 then sz + (A - sz mod A) else sz)"

text \<open>
  A \<^verbatim>\<open>LogEntry<Ts...>\<close>: the \<open>size\<close> member of \<^verbatim>\<open>LogEntryBase\<close> and the tuple of values
  (\<open>vals\<close>); \<^verbatim>\<open>printSelf\<close> passes the values to \<^verbatim>\<open>QUICKLOG_PRINT\<close>. The constructor
  \<^verbatim>\<open>LogEntry(Ts ... args)\<close> sets \<open>size\<close> to \<^verbatim>\<open>sizeof(*this)\<close>, which depends on
  \<^verbatim>\<open>Ts...\<close> only and is the parameter \<open>sz\<close>.
\<close>

record 'v LogEntry =
  esize :: nat
  vals :: 'v

definition LogEntry :: "nat \<Rightarrow> 'v \<Rightarrow> 'v LogEntry" where
  "LogEntry sz args = \<lparr>esize = sz, vals = args\<rparr>"

section \<open>detail::EntryBuffer\<close>

text \<open>
  \<open>m_buffer\<close> maps a byte offset to the object whose first byte is there, with the number
  of bytes the object takes (its \<^verbatim>\<open>sizeof\<close>). Writing an object destroys every object
  whose bytes it overlaps.
\<close>

type_synonym 'v bytes = "nat \<Rightarrow> (nat \<times> 'v LogEntry) option"

definition store :: "'v bytes \<Rightarrow> nat \<Rightarrow> nat \<Rightarrow> 'v LogEntry \<Rightarrow> 'v bytes" where
  "store buf p sz e =
     (\<lambda>q. if q = p then Some (sz, e)
          else (case buf q of
                  None \<Rightarrow> None
                | Some (s, x) \<Rightarrow> if q < p + sz \<and> p < q + s then None else Some (s, x)))"

record 'v EntryBuffer =
  m_count :: nat
  m_pos :: nat
  m_buffer :: "'v bytes"

definition EntryBuffer_init :: "'v EntryBuffer" where
  "EntryBuffer_init = \<lparr>m_count = 0, m_pos = 0, m_buffer = (\<lambda>q. None)\<rparr>"

text \<open>\<open>B\<close> is the template parameter \<^verbatim>\<open>size\<close>; \<open>sz\<close> is \<^verbatim>\<open>sizeof(elem)\<close>.\<close>

definition EntryBuffer_pushElem ::
  "nat \<Rightarrow> nat \<Rightarrow> nat \<Rightarrow> 'v LogEntry \<Rightarrow> 'v EntryBuffer \<Rightarrow> bool \<times> 'v EntryBuffer" where
  "EntryBuffer_pushElem A B sz elem b =
     (let align_sz = alignedSize A sz in
      if align_sz + m_pos b > B then (False, b)
      else (True, b\<lparr>m_buffer := store (m_buffer b) (m_pos b) sz elem,
                     m_pos := m_pos b + align_sz,
                     m_count := m_count b + 1\<rparr>))"

definition EntryBuffer_clear :: "'v EntryBuffer \<Rightarrow> 'v EntryBuffer" where
  "EntryBuffer_clear b = b\<lparr>m_count := 0, m_pos := 0\<rparr>"

definition EntryBuffer_isEmpty :: "'v EntryBuffer \<Rightarrow> bool" where
  "EntryBuffer_isEmpty b = (m_pos b = 0)"

text \<open>
  The loop of \<^verbatim>\<open>EntryBuffer::dump\<close> with \<open>k\<close> iterations left: it gives the entries it
  called \<^verbatim>\<open>printSelf\<close> on, each with the offset \<open>dump_pos\<close> it was read at, or \<open>None\<close>
  when an offset holds no record.
\<close>

fun dump_loop :: "nat \<Rightarrow> 'v bytes \<Rightarrow> nat \<Rightarrow> nat \<Rightarrow> (nat \<times> 'v LogEntry) list option" where
  "dump_loop A buf 0 dump_pos = Some []"
| "dump_loop A buf (Suc k) dump_pos =
     (case buf dump_pos of
        None \<Rightarrow> None
      | Some (s, entry) \<Rightarrow>
          map_option ((#) (dump_pos, entry))
            (dump_loop A buf k (dump_pos + alignedSize A (esize entry))))"

definition EntryBuffer_dump :: "nat \<Rightarrow> 'v EntryBuffer \<Rightarrow> ('v, 'v EntryBuffer) outcome" where
  "EntryBuffer_dump A b =
     (case dump_loop A (m_buffer b) (m_count b) 0 of
        None \<Rightarrow> Undefined
      | Some reads \<Rightarrow> Returns (map (\<lambda>(p, entry). Print (vals entry)) reads) (EntryBuffer_clear b))"

subsection \<open>Filling one arena\<close>

text \<open>
  What \<^verbatim>\<open>log\<close> does to one arena that accepts every record: each record \<open>(sz, vs)\<close> is
  built by the constructor and handed to \<^verbatim>\<open>pushElem\<close>. The result lists the offsets
  \<open>m_pos\<close> the records were written at; \<open>None\<close> when a record is refused.
\<close>

fun push_all ::
  "nat \<Rightarrow> nat \<Rightarrow> (nat \<times> 'v) list \<Rightarrow> 'v EntryBuffer \<Rightarrow> (nat list \<times> 'v EntryBuffer) option" where
  "push_all A B [] b = Some ([], b)"
| "push_all A B ((sz, vs) # rs) b =
     (case EntryBuffer_pushElem A B sz (LogEntry sz vs) b of
        (True, b') \<Rightarrow> map_option (\<lambda>(offs, b''). (m_pos b # offs, b'')) (push_all A B rs b')
      | (False, b') \<Rightarrow> None)"

text \<open>The record \<^verbatim>\<open>log\<close> builds from a \<^verbatim>\<open>sizeof\<close> and the arguments.\<close>

definition entry_of :: "nat \<times> 'v \<Rightarrow> 'v LogEntry" where
  "entry_of r = LogEntry (fst r) (snd r)"

section \<open>LocalLogger\<close>

text \<open>
  The template parameter \<^verbatim>\<open>numBuffers\<close> is the length of the array \<open>buffers\<close>;
  \<^verbatim>\<open>bufferSize\<close> is the parameter \<open>B\<close> of the functions. \<open>server\<close> is the address of
  the server, \<open>None\<close> for \<^verbatim>\<open>nullptr\<close>.
\<close>

record 'v LocalLogger =
  buffers :: "'v EntryBuffer list"
  writeIndex :: "8 word"
  readIndex :: "8 word"
  buffersFull :: semaphore
  server :: "nat option"

definition numBuffers :: "'v LocalLogger \<Rightarrow> nat" where
  "numBuffers L = length (buffers L)"

definition LocalLogger_init :: "nat \<Rightarrow> 'v LocalLogger" where
  "LocalLogger_init N =
     \<lparr>buffers = replicate N EntryBuffer_init, writeIndex = 0, readIndex = 0,
      buffersFull = semaphore_init, server = None\<rparr>"

definition LocalLogger_full :: "'v LocalLogger \<Rightarrow> bool" where
  "LocalLogger_full L = (unat (semaphore_peek (buffersFull L)) = numBuffers L)"

text \<open>
  \<^verbatim>\<open>(writeIndex+1) % numBuffers\<close> is computed in \<^verbatim>\<open>size_t\<close> and stored in a byte.
  \<^verbatim>\<open>server->_onDumpAvail()\<close> is \<^verbatim>\<open>platform.notify()\<close> of that server.
\<close>

definition LocalLogger_nextIndex :: "hook \<Rightarrow> 'v LocalLogger \<Rightarrow> ('v, 'v LocalLogger) outcome" where
  "LocalLogger_nextIndex h L =
     (if \<not> LocalLogger_full L then
        (let L1 = L\<lparr>writeIndex := of_nat ((unat (writeIndex L) + 1) mod numBuffers L)\<rparr>;
             L2 = L1\<lparr>buffersFull := semaphore_put (buffersFull L1)\<rparr>
         in case server L2 of
              None \<Rightarrow> QUICKLOG_ERROR h UnregisteredLogger L2
            | Some srv \<Rightarrow> Returns [Notify srv] L2)
      else QUICKLOG_ERROR h NextIndexFull L)"

text \<open>\<^verbatim>\<open>buffers[writeIndex].pushElem(ent)\<close>, undefined when the index is out of the array.\<close>

definition buffers_pushElem ::
  "nat \<Rightarrow> nat \<Rightarrow> nat \<Rightarrow> 'v LogEntry \<Rightarrow> 'v LocalLogger \<Rightarrow> ('v, bool \<times> 'v LocalLogger) outcome" where
  "buffers_pushElem A B sz ent L =
     (let i = unat (writeIndex L) in
      if i < numBuffers L then
        (case EntryBuffer_pushElem A B sz ent (buffers L ! i) of
           (success, b) \<Rightarrow> Returns [] (success, L\<lparr>buffers := (buffers L)[i := b]\<rparr>))
      else Undefined)"

text \<open>\<open>sz\<close> is \<^verbatim>\<open>sizeof(LogEntry<Ts...>)\<close> and \<open>vs\<close> the arguments \<^verbatim>\<open>vs...\<close>.\<close>

definition LocalLogger_log ::
  "hook \<Rightarrow> nat \<Rightarrow> nat \<Rightarrow> nat \<Rightarrow> 'v \<Rightarrow> 'v LocalLogger \<Rightarrow> ('v, 'v LocalLogger) outcome" where
  "LocalLogger_log h A B sz vs L =
     (if LocalLogger_full L then QUICKLOG_ERROR h LoggerFull L
      else
        (let ent = LogEntry sz vs in
         then_do (buffers_pushElem A B sz ent L) (\<lambda>(success, L1).
           if \<not> success then
             then_do (LocalLogger_nextIndex h L1) (\<lambda>L2.
               then_do (buffers_pushElem A B sz ent L2) (\<lambda>(success, L3).
                 if \<not> success then QUICKLOG_ERROR h EntryTooLarge L3
                 else Returns [] L3))
           else Returns [] L1)))"

definition LocalLogger_flush :: "hook \<Rightarrow> 'v LocalLogger \<Rightarrow> ('v, 'v LocalLogger) outcome" where
  "LocalLogger_flush h L =
     (let i = unat (writeIndex L) in
      if i < numBuffers L then
        (if \<not> EntryBuffer_isEmpty (buffers L ! i) then LocalLogger_nextIndex h L
         else Returns [] L)
      else Undefined)"

text \<open>\<^verbatim>\<open>++readIndex\<close> is an increment of a byte.\<close>

definition LocalLogger_dump ::
  "hook \<Rightarrow> nat \<Rightarrow> 'v LocalLogger \<Rightarrow> ('v, bool \<times> 'v LocalLogger) outcome" where
  "LocalLogger_dump h A L =
     (if semaphore_peek (buffersFull L) \<noteq> 0 then
        (let i = unat (readIndex L) in
         if i < numBuffers L then
           then_do (EntryBuffer_dump A (buffers L ! i)) (\<lambda>b.
             (let L1 = L\<lparr>buffers := (buffers L)[i := b]\<rparr>;
                  L2 = L1\<lparr>readIndex := readIndex L1 + 1\<rparr>
              in then_do (semaphore_get h (buffersFull L2)) (\<lambda>s.
                   Returns [] (True, L2\<lparr>buffersFull := s\<rparr>))))
         else Undefined)
      else Returns [] (False, L))"

subsection \<open>Sequences of producer and consumer calls on one logger\<close>

datatype 'v call = Log nat 'v | Flush | Drain

fun perform :: "hook \<Rightarrow> nat \<Rightarrow> nat \<Rightarrow> 'v call \<Rightarrow> 'v LocalLogger \<Rightarrow> ('v, 'v LocalLogger) outcome" where
  "perform h A B (Log sz vs) L = LocalLogger_log h A B sz vs L"
| "perform h A B Flush L = LocalLogger_flush h L"
| "perform h A B Drain L = then_do (LocalLogger_dump h A L) (\<lambda>(did, L'). Returns [] L')"

fun perform_all :: "hook \<Rightarrow> nat \<Rightarrow> nat \<Rightarrow> 'v call list \<Rightarrow> 'v LocalLogger \<Rightarrow> ('v, 'v LocalLogger) outcome" where
  "perform_all h A B [] L = Returns [] L"
| "perform_all h A B (c # cs) L = then_do (perform h A B c L) (perform_all h A B cs)"

text \<open>A logger after \<^verbatim>\<open>addLogger\<close> of the server at address \<open>srv\<close>, with \<open>N\<close> arenas.\<close>

definition registered :: "nat \<Rightarrow> nat \<Rightarrow> 'v LocalLogger" where
  "registered N srv = (LocalLogger_init N)\<lparr>server := Some srv\<rparr>"

text \<open>The indices of the ring are in range: the invariant behind the bound on \<open>buffersFull\<close>.\<close>

definition ring_ok :: "nat \<Rightarrow> 'v LocalLogger \<Rightarrow> bool" where
  "ring_ok N L \<longleftrightarrow>
     numBuffers L = N \<and> unat (writeIndex L) < N \<and> unat (semaphore_peek (buffersFull L)) \<le> N"

section \<open>LogServer\<close>

text \<open>
  \<open>localLoggers\<close> is the array of \<^verbatim>\<open>maxLoggers\<close> pointers, so \<^verbatim>\<open>maxLoggers\<close> is its
  length; a pointer to a logger is the address of the logger in the heap. The platform
  adapter has no state the server reads: its calls are events.
\<close>

record LogServer =
  localLoggers :: "nat list"
  nLoggers :: nat
  run :: bool

definition maxLoggers :: "LogServer \<Rightarrow> nat" where
  "maxLoggers S = length (localLoggers S)"

definition LogServer_init :: "nat \<Rightarrow> LogServer" where
  "LogServer_init n = \<lparr>localLoggers = replicate n 0, nLoggers = 0, run = True\<rparr>"

text \<open>
  The loggers live outside the server, which holds pointers to them, and each logger points
  back to its server: the server and the loggers are one world, the loggers in a heap of
  objects by address.
\<close>

type_synonym 'v heap = "nat \<Rightarrow> 'v LocalLogger option"

record 'v world =
  logServer :: LogServer
  heap :: "'v heap"

text \<open>
  \<^verbatim>\<open>addLogger\<close> by the server at address \<open>self\<close> of the logger at address \<open>p\<close>. The
  assignment to \<^verbatim>\<open>logger.server\<close> follows the \<^verbatim>\<open>if\<close>/\<^verbatim>\<open>else\<close>; it is in neither branch.
\<close>

definition LogServer_addLogger :: "hook \<Rightarrow> nat \<Rightarrow> nat \<Rightarrow> 'v world \<Rightarrow> ('v, 'v world) outcome" where
  "LogServer_addLogger h self p W =
     emit [Lock]
       (then_do
          (if nLoggers (logServer W) = maxLoggers (logServer W) then QUICKLOG_ERROR h RegistryFull W
           else if nLoggers (logServer W) < maxLoggers (logServer W) then
             Returns [] (W\<lparr>logServer := (logServer W)\<lparr>localLoggers := (localLoggers (logServer W))[nLoggers (logServer W) := p],
                                          nLoggers := nLoggers (logServer W) + 1\<rparr>\<rparr>)
           else Undefined)
          (\<lambda>W1. case heap W1 p of
                  None \<Rightarrow> Undefined
                | Some logger \<Rightarrow>
                    Returns [Unlock] (W1\<lparr>heap := (heap W1)(p \<mapsto> logger\<lparr>server := Some self\<rparr>)\<rparr>)))"

text \<open>\<^verbatim>\<open>shutdown\<close> of the server at address \<open>self\<close>.\<close>

definition LogServer_shutdown :: "nat \<Rightarrow> 'v world \<Rightarrow> ('v, 'v world) outcome" where
  "LogServer_shutdown self W = Returns [Notify self] (W\<lparr>logServer := (logServer W)\<lparr>run := False\<rparr>\<rparr>)"

text \<open>
  The \<^verbatim>\<open>for\<close> loop of \<^verbatim>\<open>_dumpAll\<close> over the registered pointers still to visit:
  \<^verbatim>\<open>didSomething |= localLoggers[i]->dump()\<close>.
\<close>

fun dump_each ::
  "hook \<Rightarrow> nat \<Rightarrow> nat list \<Rightarrow> bool \<Rightarrow> 'v heap \<Rightarrow> ('v, bool \<times> 'v heap) outcome" where
  "dump_each h A [] didSomething H = Returns [] (didSomething, H)"
| "dump_each h A (p # ps) didSomething H =
     (case H p of
        None \<Rightarrow> Undefined
      | Some logger \<Rightarrow>
          then_do (LocalLogger_dump h A logger) (\<lambda>(did, logger').
            dump_each h A ps (didSomething \<or> did) (H(p \<mapsto> logger'))))"

text \<open>The number of full arenas of the logger at an address, as its semaphore counts them.\<close>

definition unread :: "'v heap \<Rightarrow> nat \<Rightarrow> nat" where
  "unread H p = (case H p of None \<Rightarrow> 0 | Some logger \<Rightarrow> unat (semaphore_peek (buffersFull logger)))"

text \<open>
  The \<^verbatim>\<open>do\<close> ... \<^verbatim>\<open>while(didSomething)\<close> loop of \<^verbatim>\<open>_dumpAll\<close>, with no producer running
  meanwhile. It terminates: a pass that did something has drained an arena, and no pass
  fills one.
\<close>

function dumpAll_loop :: "hook \<Rightarrow> nat \<Rightarrow> nat list \<Rightarrow> 'v heap \<Rightarrow> ('v, 'v heap) outcome" where
  "dumpAll_loop h A ps H =
     (case dump_each h A ps False H of
        Returns es (didSomething, H') \<Rightarrow>
          if didSomething then emit es (dumpAll_loop h A ps H') else Returns es H'
      | Exits es \<Rightarrow> Exits es
      | Undefined \<Rightarrow> Undefined)"
  by pat_completeness auto
termination
proof (relation "measure (\<lambda>(h, A, ps, H). sum_list (map (unread H) ps))")
  show "wf (measure (\<lambda>(h :: hook, A :: nat, ps, H :: 'v heap). sum_list (map (unread H) ps)))"
    by simp
next
  fix h A ps and H :: "'v heap" and es :: "'v event list" and r didSomething H'
  assume run: "dump_each h A ps False H = Returns es r" and r: "(didSomething, H') = r"
    and did: didSomething
  have one: "(if d then unat (semaphore_peek (buffersFull L')) < unat (semaphore_peek (buffersFull L))
              else L' = L)"
    if "LocalLogger_dump h A L = Returns es1 (d, L')"
    for L L' :: "'v LocalLogger" and es1 :: "'v event list" and d
  proof (cases "semaphore_peek (buffersFull L) = 0")
    case True
    with that show ?thesis
      by (simp add: LocalLogger_dump_def)
  next
    case False
    then have g: "semaphore_get h (buffersFull L)
        = (Returns [] ((buffersFull L)\<lparr>numGets := numGets (buffersFull L) + 1\<rparr>)
            :: ('v, semaphore) outcome)"
      by (auto simp: semaphore_get_def semaphore_peek_def)
    have "semaphore_peek ((buffersFull L)\<lparr>numGets := numGets (buffersFull L) + 1\<rparr>)
        = semaphore_peek (buffersFull L) - 1"
      by (simp add: semaphore_peek_def)
    with False have less: "unat (semaphore_peek ((buffersFull L)\<lparr>numGets := numGets (buffersFull L) + 1\<rparr>))
        < unat (semaphore_peek (buffersFull L))"
      by (simp add: unat_minus_one unat_gt_0)
    from that False show ?thesis
      by (cases "EntryBuffer_dump A (buffers L ! unat (readIndex L)) :: ('v, 'v EntryBuffer) outcome")
        (auto simp: LocalLogger_dump_def Let_def g less split: if_splits)
  qed
  have each: "(\<forall>q. unread H2 q \<le> unread H1 q) \<and>
              (d2 \<longrightarrow> d1 \<or> (\<exists>q \<in> set qs. unread H2 q < unread H1 q))"
    if "dump_each h A qs d1 H1 = Returns es2 (d2, H2)"
    for qs d1 d2 and H1 H2 :: "'v heap" and es2 :: "'v event list"
    using that
  proof (induction qs arbitrary: d1 H1 es2)
    case Nil
    then show ?case by simp
  next
    case (Cons p qs)
    from Cons.prems obtain L where L: "H1 p = Some L"
      by (cases "H1 p") simp_all
    from Cons.prems L obtain es3 d L' where
      dmp: "LocalLogger_dump h A L = Returns es3 (d, L')" and
      em: "emit es3 (dump_each h A qs (d1 \<or> d) (H1(p \<mapsto> L'))) = Returns es2 (d2, H2)"
      by (cases "LocalLogger_dump h A L :: ('v, bool \<times> 'v LocalLogger) outcome") auto
    from em obtain es4 :: "'v event list" where
      rest: "dump_each h A qs (d1 \<or> d) (H1(p \<mapsto> L')) = Returns es4 (d2, H2)"
      by (cases "dump_each h A qs (d1 \<or> d) (H1(p \<mapsto> L')) :: ('v, bool \<times> 'v heap) outcome") auto
    note o = one [OF dmp]
    note ih = Cons.IH [OF rest]
    have step: "unread (H1(p \<mapsto> L')) q \<le> unread H1 q" for q
      using o L by (cases d) (auto simp: unread_def)
    have mono: "\<forall>q. unread H2 q \<le> unread H1 q"
      using ih step by (meson order_trans)
    have strict: "d1 \<or> (\<exists>q \<in> set (p # qs). unread H2 q < unread H1 q)" if d2
    proof (cases "d1 \<or> d")
      case True
      then show ?thesis
      proof
        assume d1 then show ?thesis ..
      next
        assume d
        with o L have "unread (H1(p \<mapsto> L')) p < unread H1 p"
          by (simp add: unread_def)
        moreover from ih have "unread H2 p \<le> unread (H1(p \<mapsto> L')) p"
          by blast
        ultimately have "unread H2 p < unread H1 p"
          by linarith
        then show ?thesis by auto
      qed
    next
      case False
      with ih that obtain q where "q \<in> set qs" and "unread H2 q < unread (H1(p \<mapsto> L')) q"
        by blast
      with step [of q] have "unread H2 q < unread H1 q"
        by linarith
      with \<open>q \<in> set qs\<close> show ?thesis by auto
    qed
    from mono strict show ?case by blast
  qed
  have sum_less: "sum_list (map f qs) < sum_list (map g qs)"
    if "\<forall>q. f q \<le> g q" and "\<exists>q \<in> set qs. f q < g q" for f g :: "nat \<Rightarrow> nat" and qs
    using that
  proof (induction qs)
    case Nil
    then show ?case by simp
  next
    case (Cons a qs)
    have le: "sum_list (map f qs) \<le> sum_list (map g qs)"
      using Cons.prems(1) by (simp add: sum_list_mono)
    show ?case
    proof (cases "f a < g a")
      case True
      with le show ?thesis by simp
    next
      case False
      with Cons.prems(2) have "\<exists>q \<in> set qs. f q < g q"
        by auto
      then have "sum_list (map f qs) < sum_list (map g qs)"
        using Cons.IH Cons.prems(1) by blast
      moreover have "f a \<le> g a"
        using Cons.prems(1) by blast
      ultimately show ?thesis by simp
    qed
  qed
  from run r have "dump_each h A ps False H = Returns es (didSomething, H')"
    by simp
  from each [OF this] did
  have "\<forall>q. unread H' q \<le> unread H q" and "\<exists>q \<in> set ps. unread H' q < unread H q"
    by simp_all
  then have "sum_list (map (unread H') ps) < sum_list (map (unread H) ps)"
    by (rule sum_less)
  then show "((h, A, ps, H'), (h, A, ps, H)) \<in> measure (\<lambda>(h, A, ps, H). sum_list (map (unread H) ps))"
    by simp
qed


text \<open>The pointers \<^verbatim>\<open>localLoggers[0]\<close> ... \<^verbatim>\<open>localLoggers[nLoggers - 1]\<close>.\<close>

definition registry :: "'v world \<Rightarrow> nat list" where
  "registry W = take (nLoggers (logServer W)) (localLoggers (logServer W))"

text \<open>\<^verbatim>\<open>_dumpAll\<close>: the loop between \<^verbatim>\<open>platform.lock()\<close> and \<^verbatim>\<open>platform.unlock()\<close>.\<close>

definition LogServer_dumpAll :: "hook \<Rightarrow> nat \<Rightarrow> 'v world \<Rightarrow> ('v, 'v world) outcome" where
  "LogServer_dumpAll h A W =
     emit [Lock]
       (then_do
          (if nLoggers (logServer W) \<le> maxLoggers (logServer W) then
             dumpAll_loop h A (registry W) (heap W)
           else Undefined)
          (\<lambda>H. Returns [Unlock] (W\<lparr>heap := H\<rparr>)))"

text \<open>
  \<^verbatim>\<open>_process\<close>, the body of \<^verbatim>\<open>process\<close>. The other threads (producers, the caller of
  \<^verbatim>\<open>shutdown\<close>) run while the consumer is in \<^verbatim>\<open>platform.wait()\<close>: the list gives, for
  each wait in turn, what they do to the world before the wait comes back. When the list
  is used up and \<^verbatim>\<open>run\<close> is still set the consumer waits for ever: \<open>None\<close>.
\<close>

fun LogServer_process ::
  "hook \<Rightarrow> nat \<Rightarrow> ('v world \<Rightarrow> 'v world) list \<Rightarrow> 'v world \<Rightarrow> ('v, 'v world) outcome option" where
  "LogServer_process h A [] W =
     (if run (logServer W) then None else Some (LogServer_dumpAll h A W))"
| "LogServer_process h A (e # env) W =
     (if run (logServer W) then
        (case LogServer_dumpAll h A (e W) of
           Returns es W' \<Rightarrow> map_option (emit (Wait # es)) (LogServer_process h A env W')
         | Exits es \<Rightarrow> Some (Exits (Wait # es))
         | Undefined \<Rightarrow> Some Undefined)
      else Some (LogServer_dumpAll h A W))"

text \<open>The events that are calls of the platform adapter.\<close>

fun platform_call :: "'v event \<Rightarrow> bool" where
  "platform_call (Print vs) = False"
| "platform_call (Error e) = False"
| "platform_call (Notify s) = True"
| "platform_call Wait = True"
| "platform_call Lock = True"
| "platform_call Unlock = True"

section \<open>Reading an outcome\<close>

fun events :: "('v, 'a) outcome \<Rightarrow> 'v event list" where
  "events (Returns es a) = es"
| "events (Exits es) = es"
| "events Undefined = []"

fun returned :: "('v, 'a) outcome \<Rightarrow> 'a option" where
  "returned (Returns es a) = Some a"
| "returned (Exits es) = None"
| "returned Undefined = None"

fun is_Returns :: "('v, 'a) outcome \<Rightarrow> bool" where
  "is_Returns (Returns es a) = True"
| "is_Returns (Exits es) = False"
| "is_Returns Undefined = False"

fun is_Undefined :: "('v, 'a) outcome \<Rightarrow> bool" where
  "is_Undefined Undefined = True"
| "is_Undefined (Returns es a) = False"
| "is_Undefined (Exits es) = False"

section \<open>States used as examples\<close>

text \<open>
  A server whose registry of one pointer is full (the logger at address 10), and a second
  logger at address 11 that no server has seen.
\<close>

definition full_world :: "nat world" where
  "full_world = \<lparr>logServer = \<lparr>localLoggers = [10], nLoggers = 1, run = True\<rparr>,
                 heap = (\<lambda>p. None)(10 \<mapsto> registered 2 0, 11 \<mapsto> LocalLogger_init 2)\<rparr>"

text \<open>
  A server with room for two loggers and one registered, at address 10, which has logged one
  record and flushed: one arena is full.
\<close>

definition pending_world :: "nat world" where
  "pending_world =
     \<lparr>logServer = \<lparr>localLoggers = [10, 0], nLoggers = 1, run = True\<rparr>,
      heap = (\<lambda>p. None)(10 := returned (perform_all Terminating 16 64 [Log 24 7, Flush] (registered 2 0)))\<rparr>"

text \<open>What \<^verbatim>\<open>shutdown\<close>, called by another thread, does to the world the consumer sees.\<close>

definition shutdown_during_wait :: "'v world \<Rightarrow> 'v world" where
  "shutdown_during_wait W = W\<lparr>logServer := (logServer W)\<lparr>run := False\<rparr>\<rparr>"

text \<open>The consumer came back from \<^verbatim>\<open>_process\<close>.\<close>

fun finished :: "('v, 'a) outcome option \<Rightarrow> bool" where
  "finished (Some (Returns es a)) = True"
| "finished _ = False"

section \<open>Properties\<close>

subsection \<open>Auxiliary facts\<close>

lemma emit_Nil [simp]: "emit [] m = m"
  by (cases m) simp_all

lemma alignedSize_ge: "sz \<le> alignedSize A sz"
  by (simp add: alignedSize_def)

lemma alignedSize_exact: "0 < A \<Longrightarrow> alignedSize A sz = sz \<longleftrightarrow> A dvd sz"
proof -
  assume "0 < A"
  then have lt: "sz mod A < A"
    by simp
  show ?thesis
  proof (cases "sz mod A = 0")
    case True
    then show ?thesis
      by (simp add: alignedSize_def mod_eq_0_iff_dvd)
  next
    case False
    have "sz < sz + (A - sz mod A)"
      using lt by arith
    with False show ?thesis
      by (simp add: alignedSize_def mod_eq_0_iff_dvd)
  qed
qed

lemma pushElem_True:
  "EntryBuffer_pushElem A B sz e b = (True, b') \<Longrightarrow>
     b' = b\<lparr>m_buffer := store (m_buffer b) (m_pos b) sz e,
            m_pos := m_pos b + alignedSize A sz, m_count := m_count b + 1\<rparr>"
  by (auto simp: EntryBuffer_pushElem_def Let_def split: if_splits)

lemma store_keeps:
  "buf q = Some (s, x) \<Longrightarrow> 0 < s \<Longrightarrow> q + s \<le> p \<Longrightarrow> store buf p sz e q = Some (s, x)"
  by (simp add: store_def)

lemma push_all_keeps:
  "push_all A B rs b = Some (offs, b') \<Longrightarrow> m_buffer b q = Some (s, x) \<Longrightarrow> 0 < s \<Longrightarrow>
   q + s \<le> m_pos b \<Longrightarrow> m_buffer b' q = Some (s, x)"
proof (induction rs arbitrary: b offs)
  case Nil
  then show ?case by simp
next
  case (Cons r rs)
  obtain sz vs where r: "r = (sz, vs)" by (cases r)
  from Cons.prems(1) r obtain b1 offs1 where
    p1: "EntryBuffer_pushElem A B sz (LogEntry sz vs) b = (True, b1)" and
    rest: "push_all A B rs b1 = Some (offs1, b')"
    by (auto split: prod.splits bool.splits)
  note b1 = pushElem_True [OF p1]
  have "m_buffer b1 q = Some (s, x)"
    using Cons.prems(2-4) by (simp add: b1 store_keeps)
  moreover have "q + s \<le> m_pos b1"
    using Cons.prems(4) by (simp add: b1)
  ultimately show ?case
    using Cons.IH [OF rest] Cons.prems(3) by blast
qed

lemma push_all_count:
  "push_all A B rs b = Some (offs, b') \<Longrightarrow> m_count b' = m_count b + length rs \<and> length offs = length rs"
proof (induction rs arbitrary: b offs)
  case Nil
  then show ?case by simp
next
  case (Cons r rs)
  obtain sz vs where r: "r = (sz, vs)" by (cases r)
  from Cons.prems(1) r obtain b1 offs1 where
    p1: "EntryBuffer_pushElem A B sz (LogEntry sz vs) b = (True, b1)" and
    rest: "push_all A B rs b1 = Some (offs1, b')" and offs: "offs = m_pos b # offs1"
    by (auto split: prod.splits bool.splits)
  show ?case
    using Cons.IH [OF rest] by (simp add: pushElem_True [OF p1] offs)
qed

lemma push_all_dump_loop:
  "push_all A B rs b = Some (offs, b') \<Longrightarrow> \<forall>r \<in> set rs. 0 < fst r \<Longrightarrow>
   dump_loop A (m_buffer b') (length rs) (m_pos b) = Some (zip offs (map entry_of rs))"
proof (induction rs arbitrary: b offs)
  case Nil
  then show ?case by simp
next
  case (Cons r rs)
  obtain sz vs where r: "r = (sz, vs)" by (cases r)
  from Cons.prems(1) r obtain b1 offs1 where
    p1: "EntryBuffer_pushElem A B sz (LogEntry sz vs) b = (True, b1)" and
    rest: "push_all A B rs b1 = Some (offs1, b')" and offs: "offs = m_pos b # offs1"
    by (auto split: prod.splits bool.splits)
  note b1 = pushElem_True [OF p1]
  have pos: "0 < sz" using Cons.prems(2) r by simp
  have here: "m_buffer b1 (m_pos b) = Some (sz, LogEntry sz vs)"
    by (simp add: b1 store_def)
  have "m_pos b + sz \<le> m_pos b1"
    by (simp add: b1 alignedSize_ge)
  with here pos have kept: "m_buffer b' (m_pos b) = Some (sz, LogEntry sz vs)"
    by (rule push_all_keeps [OF rest])
  have next_pos: "m_pos b + alignedSize A (esize (LogEntry sz vs)) = m_pos b1"
    by (simp add: b1 LogEntry_def)
  have "dump_loop A (m_buffer b') (length rs) (m_pos b1) = Some (zip offs1 (map entry_of rs))"
    using Cons.IH [OF rest] Cons.prems(2) by simp
  moreover have "entry_of r = LogEntry sz vs"
    by (simp add: r entry_of_def)
  ultimately show ?case
    by (simp add: kept next_pos offs)
qed

lemma emit_Returns_iff:
  "emit es m = Returns es' a \<longleftrightarrow> (\<exists>es2. m = Returns es2 a \<and> es' = es @ es2)"
  by (cases m) auto

lemma then_do_Returns_iff:
  "then_do m f = Returns es b \<longleftrightarrow>
     (\<exists>es1 a es2. m = Returns es1 a \<and> f a = Returns es2 b \<and> es = es1 @ es2)"
  by (cases m) (auto simp: emit_Returns_iff)

lemma then_do_ReturnsE:
  assumes "then_do m f = Returns es b"
  obtains es1 a es2 where "m = Returns es1 a" and "f a = Returns es2 b" and "es = es1 @ es2"
  using assms by (auto simp: then_do_Returns_iff)

lemma then_do_pair_ReturnsE:
  assumes "then_do m (\<lambda>(x, y). f x y) = Returns es b"
  obtains es1 x y es2 where "m = Returns es1 (x, y)" and "f x y = Returns es2 b"
    and "es = es1 @ es2"
  using assms by (auto simp: then_do_Returns_iff)

lemma QUICKLOG_ERROR_Returns: "QUICKLOG_ERROR h e a = Returns es b \<Longrightarrow> b = a"
  by (cases h) simp_all

lemma peek_put: "semaphore_peek (semaphore_put s) = semaphore_peek s + 1"
  by (simp add: semaphore_peek_def semaphore_put_def)

lemma unat_peek_put:
  "unat (semaphore_peek s) < 255 \<Longrightarrow>
   unat (semaphore_peek (semaphore_put s)) = unat (semaphore_peek s) + 1"
  by (simp add: peek_put unat_word_ariths)

lemma get_nonzero:
  "semaphore_peek s \<noteq> 0 \<Longrightarrow> semaphore_get h s = Returns [] (s\<lparr>numGets := numGets s + 1\<rparr>)"
  by (auto simp: semaphore_get_def semaphore_peek_def)

lemma unat_peek_get:
  "semaphore_peek s \<noteq> 0 \<Longrightarrow>
   unat (semaphore_peek (s\<lparr>numGets := numGets s + 1\<rparr>)) = unat (semaphore_peek s) - 1"
proof -
  assume nz: "semaphore_peek s \<noteq> 0"
  have "semaphore_peek (s\<lparr>numGets := numGets s + 1\<rparr>) = semaphore_peek s - 1"
    by (simp add: semaphore_peek_def)
  with nz show ?thesis
    by (simp add: unat_minus_one)
qed

lemma unat_next_index:
  "0 < N \<Longrightarrow> unat (of_nat ((w + 1) mod N) :: 8 word) < N"
proof -
  assume "0 < N"
  then have "(w + 1) mod N < N" by simp
  moreover have "unat (of_nat ((w + 1) mod N) :: 8 word) \<le> (w + 1) mod N"
    by (simp add: unat_of_nat)
  ultimately show ?thesis by linarith
qed

lemma is_Returns_obtain:
  assumes "is_Returns m"
  obtains es a where "m = Returns es a"
  using assms by (cases m) simp_all

lemma finished_obtain:
  assumes "finished r"
  obtains es a where "r = Some (Returns es a)"
  using assms by (cases r rule: finished.cases) simp_all

subsection \<open>The semaphore\<close>

lemma get_quiet:
  assumes "semaphore_get h s = (Returns [] s' :: ('v, semaphore) outcome)"
  shows "semaphore_peek s \<noteq> 0 \<and> s' = s\<lparr>numGets := numGets s + 1\<rparr>"
  using assms by (cases h) (auto simp: semaphore_get_def semaphore_peek_def split: if_splits)

lemma semaphore_calls_counts:
  assumes "semaphore_calls h cs s0 = (Returns [] s :: ('v, semaphore) outcome)"
    and "T \<le> P" and "semaphore_peek s0 = of_nat (P - T)"
  shows "T + count_list cs Take \<le> P + count_list cs Put \<and>
         semaphore_peek s = of_nat ((P + count_list cs Put) - (T + count_list cs Take))"
  using assms
proof (induction cs arbitrary: s0 P T)
  case Nil
  then show ?case by simp
next
  case (Cons c cs)
  show ?case
  proof (cases c)
    case Put
    have "semaphore_peek (semaphore_put s0) = of_nat (Suc P - T)"
      using Cons.prems(2,3) by (simp add: peek_put Suc_diff_le)
    with Cons.IH [of "semaphore_put s0" T "Suc P"] Cons.prems(1,2) Put show ?thesis
      by simp
  next
    case Take
    with Cons.prems(1) obtain s1 where
      g: "semaphore_get h s0 = (Returns [] s1 :: ('v, semaphore) outcome)" and
      rest: "semaphore_calls h cs s1 = (Returns [] s :: ('v, semaphore) outcome)"
      by (auto simp: then_do_Returns_iff)
    from get_quiet [OF g] have nz: "semaphore_peek s0 \<noteq> 0"
      and s1: "s1 = s0\<lparr>numGets := numGets s0 + 1\<rparr>"
      by simp_all
    from nz Cons.prems(3) have "P - T \<noteq> 0"
      by auto
    with Cons.prems(2) have lt: "Suc T \<le> P"
      by simp
    have "semaphore_peek s1 = semaphore_peek s0 - 1"
      by (simp add: s1 semaphore_peek_def)
    also have "\<dots> = of_nat (P - Suc T)"
      using lt by (simp add: Cons.prems(3) of_nat_diff)
    finally have "semaphore_peek s1 = of_nat (P - Suc T)" .
    with Cons.IH [OF rest lt] Take show ?thesis
      by simp
  qed
qed

lemma semaphore_peek_counts:
  assumes "semaphore_calls h cs semaphore_init = (Returns [] s :: ('v, semaphore) outcome)"
  shows "count_list cs Take \<le> count_list cs Put \<and>
         unat (semaphore_peek s) = (count_list cs Put - count_list cs Take) mod 256"
proof -
  have init: "semaphore_peek semaphore_init = of_nat (0 - 0)"
    by (simp add: semaphore_peek_def semaphore_init_def)
  from semaphore_calls_counts [OF assms le_refl init]
  have le: "count_list cs Take \<le> count_list cs Put"
    and pk: "semaphore_peek s = of_nat (count_list cs Put - count_list cs Take)"
    by simp_all
  have "unat (semaphore_peek s) = (count_list cs Put - count_list cs Take) mod 2 ^ 8"
    unfolding pk by (simp only: unat_of_nat) simp
  with le show ?thesis
    by simp
qed

lemma guarded_calls_return:
  "takes_guarded cs s0 \<Longrightarrow> \<exists>s. semaphore_calls h cs s0 = (Returns [] s :: ('v, semaphore) outcome)"
proof (induction cs arbitrary: s0)
  case Nil
  then show ?case by simp
next
  case (Cons c cs)
  then show ?case
    by (cases c) (auto simp: get_nonzero)
qed

text \<open>
  C8. Where every \<^verbatim>\<open>get\<close> of a sequence of \<^verbatim>\<open>put\<close> and \<^verbatim>\<open>get\<close> finds a count that is
  not zero, the calls return with no call of the hook, there are no more gets than puts,
  and \<^verbatim>\<open>peek\<close> is the number of puts less the number of gets modulo 256. \<^verbatim>\<open>get\<close> on equal
  counters (a count of zero) calls the hook with the underflow message, whatever the hook;
  the hook as shipped ends the process there, so \<open>numGets\<close> is not incremented.
\<close>

theorem semaphore_counts:
  "(takes_guarded cs semaphore_init \<longrightarrow>
      (\<exists>s. semaphore_calls h cs semaphore_init = (Returns [] s :: ('v, semaphore) outcome) \<and>
           count_list cs Take \<le> count_list cs Put \<and>
           unat (semaphore_peek s) = (count_list cs Put - count_list cs Take) mod 256 \<and>
           uint (semaphore_peek s) = (int (count_list cs Put) - int (count_list cs Take)) mod 256)) \<and>
   (numPuts s0 = numGets s0 \<longrightarrow>
      semaphore_peek s0 = 0 \<and>
      events (semaphore_get h s0 :: ('v, semaphore) outcome) = [Error SemaphoreUnderflow] \<and>
      semaphore_get Terminating s0 = (Exits [Error SemaphoreUnderflow] :: ('v, semaphore) outcome))"
proof (intro conjI impI)
  assume "takes_guarded cs semaphore_init"
  then obtain s where r: "semaphore_calls h cs semaphore_init = (Returns [] s :: ('v, semaphore) outcome)"
    using guarded_calls_return by blast
  note c = semaphore_peek_counts [OF r]
  then have "uint (semaphore_peek s) = int ((count_list cs Put - count_list cs Take) mod 256)"
    by (simp add: uint_nat)
  also have "\<dots> = (int (count_list cs Put) - int (count_list cs Take)) mod 256"
    using c by (simp add: of_nat_diff zmod_int)
  finally show "\<exists>s. semaphore_calls h cs semaphore_init = (Returns [] s :: ('v, semaphore) outcome) \<and>
           count_list cs Take \<le> count_list cs Put \<and>
           unat (semaphore_peek s) = (count_list cs Put - count_list cs Take) mod 256 \<and>
           uint (semaphore_peek s) = (int (count_list cs Put) - int (count_list cs Take)) mod 256"
    using r c by blast
next
  assume eq: "numPuts s0 = numGets s0"
  then show "semaphore_peek s0 = 0"
    by (simp add: semaphore_peek_def)
  from eq show "events (semaphore_get h s0 :: ('v, semaphore) outcome) = [Error SemaphoreUnderflow]"
    by (cases h) (simp_all add: semaphore_get_def)
  from eq show "semaphore_get Terminating s0 = (Exits [Error SemaphoreUnderflow] :: ('v, semaphore) outcome)"
    by (simp add: semaphore_get_def)
qed

theorem semaphore_counts_witness:
  "takes_guarded [Put, Put, Take, Put, Take] semaphore_init \<and>
   (\<exists>s. semaphore_calls Terminating [Put, Put, Take, Put, Take] semaphore_init
          = (Returns [] s :: (nat, semaphore) outcome) \<and>
        unat (semaphore_peek s) = 1) \<and>
   numPuts semaphore_init = numGets semaphore_init \<and>
   semaphore_get Terminating semaphore_init = (Exits [Error SemaphoreUnderflow] :: (nat, semaphore) outcome)"
proof -
  have g: "takes_guarded [Put, Put, Take, Put, Take] semaphore_init"
    by (simp add: semaphore_init_def semaphore_put_def semaphore_peek_def)
  have z: "numPuts semaphore_init = numGets semaphore_init"
    by (simp add: semaphore_init_def)
  note t = semaphore_counts [where ?'v = nat, of "[Put, Put, Take, Put, Take]" Terminating
      semaphore_init]
  from t g have "\<exists>s. semaphore_calls Terminating [Put, Put, Take, Put, Take] semaphore_init
          = (Returns [] s :: (nat, semaphore) outcome) \<and>
        unat (semaphore_peek s)
          = (count_list [Put, Put, Take, Put, Take] Put
              - count_list [Put, Put, Take, Put, Take] Take) mod 256"
    by blast
  then have c: "\<exists>s. semaphore_calls Terminating [Put, Put, Take, Put, Take] semaphore_init
          = (Returns [] s :: (nat, semaphore) outcome) \<and>
        unat (semaphore_peek s) = 1"
    by (simp del: semaphore_calls.simps)
  from t z have "semaphore_get Terminating semaphore_init
      = (Exits [Error SemaphoreUnderflow] :: (nat, semaphore) outcome)"
    by blast
  with g z c show ?thesis
    by blast
qed

text \<open>
  With \<^verbatim>\<open>QUICKLOG_ERROR\<close> redefined so that it returns, the increment that follows the
  \<^verbatim>\<open>if\<close> in \<^verbatim>\<open>get\<close> runs after the hook ("decrement without checking"), and the count
  goes from 0 to 255. \<^verbatim>\<open>LocalLogger::dump\<close>, the one caller, calls \<^verbatim>\<open>get\<close> only after
  \<^verbatim>\<open>peek\<close> gave a count that is not zero.
\<close>

lemma get_on_zero_returning_hook:
  "semaphore_get Returning semaphore_init
     = (Returns [Error SemaphoreUnderflow] \<lparr>numPuts = 0, numGets = 1\<rparr> :: (nat, semaphore) outcome) \<and>
   semaphore_peek semaphore_init = 0 \<and>
   semaphore_peek \<lparr>numPuts = 0, numGets = 1\<rparr> = 255"
  by (simp add: semaphore_get_def semaphore_init_def semaphore_peek_def)

subsection \<open>The arena\<close>

text \<open>
  C2. \<^verbatim>\<open>pushElem\<close> succeeds exactly when the aligned size of the record plus \<open>m_pos\<close> is at
  most the capacity \<open>B\<close>. On success \<open>m_pos\<close> grows by the aligned size, \<open>m_count\<close> by one,
  and the record is in the arena at the old \<open>m_pos\<close>; on failure the arena is unchanged. A
  record whose aligned size is exactly the space left is accepted.
\<close>

theorem pushElem_fits:
  "(fst (EntryBuffer_pushElem A B sz e b) \<longleftrightarrow> alignedSize A sz + m_pos b \<le> B) \<and>
   (alignedSize A sz + m_pos b \<le> B \<longrightarrow>
      m_pos (snd (EntryBuffer_pushElem A B sz e b)) = m_pos b + alignedSize A sz \<and>
      m_count (snd (EntryBuffer_pushElem A B sz e b)) = m_count b + 1 \<and>
      m_buffer (snd (EntryBuffer_pushElem A B sz e b)) (m_pos b) = Some (sz, e)) \<and>
   (\<not> alignedSize A sz + m_pos b \<le> B \<longrightarrow> EntryBuffer_pushElem A B sz e b = (False, b)) \<and>
   (m_pos b \<le> B \<and> alignedSize A sz = B - m_pos b \<longrightarrow> fst (EntryBuffer_pushElem A B sz e b))"
  by (simp add: EntryBuffer_pushElem_def Let_def store_def)

theorem pushElem_fits_witness:
  "alignedSize 16 24 = 64 - m_pos (EntryBuffer_init\<lparr>m_pos := 32\<rparr> :: nat EntryBuffer) \<and>
   fst (EntryBuffer_pushElem 16 64 24 (LogEntry 24 (7::nat)) (EntryBuffer_init\<lparr>m_pos := 32\<rparr>)) \<and>
   m_pos (snd (EntryBuffer_pushElem 16 64 24 (LogEntry 24 (7::nat)) (EntryBuffer_init\<lparr>m_pos := 32\<rparr>))) = 64 \<and>
   m_count (snd (EntryBuffer_pushElem 16 64 24 (LogEntry 24 (7::nat)) (EntryBuffer_init\<lparr>m_pos := 32\<rparr>))) = 1 \<and>
   \<not> alignedSize 16 40 + m_pos (EntryBuffer_init\<lparr>m_pos := 32\<rparr> :: nat EntryBuffer) \<le> 64 \<and>
   EntryBuffer_pushElem 16 64 40 (LogEntry 40 (7::nat)) (EntryBuffer_init\<lparr>m_pos := 32\<rparr>)
     = (False, EntryBuffer_init\<lparr>m_pos := 32\<rparr>)"
  using pushElem_fits [of 16 64 24 "LogEntry 24 (7::nat)" "EntryBuffer_init\<lparr>m_pos := 32\<rparr>"]
    pushElem_fits [of 16 64 40 "LogEntry 40 (7::nat)" "EntryBuffer_init\<lparr>m_pos := 32\<rparr>"]
  by (simp add: alignedSize_def EntryBuffer_init_def)

text \<open>
  C5, as the code has it. The size member of a record that \<^verbatim>\<open>log\<close> builds and
  \<^verbatim>\<open>pushElem\<close> stores is the plain \<^verbatim>\<open>sizeof\<close> of the record, not rounded. The bytes the
  record takes in the arena (the growth of \<open>m_pos\<close>) are \<open>alignedSize\<close> of that member,
  which is never less, and equal exactly when the alignment divides the \<^verbatim>\<open>sizeof\<close>.
\<close>

theorem stored_size_is_sizeof:
  "fst (EntryBuffer_pushElem A B sz (LogEntry sz vs) b) \<Longrightarrow>
     (\<exists>e. m_buffer (snd (EntryBuffer_pushElem A B sz (LogEntry sz vs) b)) (m_pos b) = Some (sz, e) \<and>
          vals e = vs \<and> esize e = sz \<and>
          m_pos (snd (EntryBuffer_pushElem A B sz (LogEntry sz vs) b)) - m_pos b
            = alignedSize A (esize e) \<and>
          esize e \<le> alignedSize A (esize e) \<and>
          (0 < A \<longrightarrow> (alignedSize A (esize e) = esize e \<longleftrightarrow> A dvd sz)))"
  by (auto simp: EntryBuffer_pushElem_def Let_def store_def LogEntry_def alignedSize_ge
      alignedSize_exact split: if_splits)

theorem stored_size_is_sizeof_witness:
  "fst (EntryBuffer_pushElem 16 64 24 (LogEntry 24 (7::nat)) EntryBuffer_init) \<and>
   (\<exists>e. m_buffer (snd (EntryBuffer_pushElem 16 64 24 (LogEntry 24 (7::nat)) EntryBuffer_init)) 0
          = Some (24, e) \<and> esize e = 24 \<and> alignedSize 16 (esize e) = 32)"
proof -
  have f: "fst (EntryBuffer_pushElem 16 64 24 (LogEntry 24 (7::nat)) EntryBuffer_init)"
    by (simp add: EntryBuffer_pushElem_def alignedSize_def EntryBuffer_init_def)
  from stored_size_is_sizeof [OF f] f show ?thesis
    by (auto simp: EntryBuffer_init_def alignedSize_def)
qed

text \<open>
  The claim C5 as written fails for a record of 24 bytes under an alignment of 16: the
  size member stored at offset 0 is 24, the record takes 32 bytes of the arena.
\<close>

theorem stored_size_counterexample:
  "fst (EntryBuffer_pushElem 16 64 24 (LogEntry 24 (7::nat)) EntryBuffer_init) \<and>
   m_buffer (snd (EntryBuffer_pushElem 16 64 24 (LogEntry 24 (7::nat)) EntryBuffer_init)) 0
     = Some (24, LogEntry 24 7) \<and>
   esize (LogEntry 24 (7::nat)) = 24 \<and>
   m_pos (snd (EntryBuffer_pushElem 16 64 24 (LogEntry 24 (7::nat)) EntryBuffer_init))
     - m_pos (EntryBuffer_init :: nat EntryBuffer) = 32 \<and>
   esize (LogEntry 24 (7::nat)) \<noteq> alignedSize 16 (esize (LogEntry 24 (7::nat)))"
  by (simp add: EntryBuffer_pushElem_def alignedSize_def EntryBuffer_init_def store_def LogEntry_def)

text \<open>
  C10. In one arena, starting empty, that accepts the records \<open>rs\<close> (each of positive
  \<^verbatim>\<open>sizeof\<close>): the loop of \<^verbatim>\<open>dump\<close> runs once per record, reads the i-th record at the
  offset \<^verbatim>\<open>pushElem\<close> wrote it at, finds there the whole record as it was pushed, and so
  prints the values in the order of the pushes.
\<close>

theorem push_dump_offsets_agree:
  assumes "m_pos b = 0" and "m_count b = 0"
    and "\<forall>r \<in> set rs. 0 < fst r"
    and "push_all A B rs b = Some (offs, b')"
  shows "length offs = length rs \<and>
         dump_loop A (m_buffer b') (m_count b') 0 = Some (zip offs (map entry_of rs)) \<and>
         EntryBuffer_dump A b' = Returns (map (\<lambda>r. Print (snd r)) rs) (EntryBuffer_clear b')"
proof -
  have cnt: "m_count b' = length rs" and len: "length offs = length rs"
    using push_all_count [OF assms(4)] assms(2) by simp_all
  have walk: "dump_loop A (m_buffer b') (m_count b') 0 = Some (zip offs (map entry_of rs))"
    using push_all_dump_loop [OF assms(4) assms(3)] assms(1) cnt by simp
  have "map (\<lambda>(p, entry). Print (vals entry)) (zip offs (map entry_of rs)) = map (\<lambda>r. Print (snd r)) rs"
    using len by (induction offs rs rule: list_induct2) (simp_all add: entry_of_def LogEntry_def)
  with walk len show ?thesis
    by (simp add: EntryBuffer_dump_def)
qed

theorem push_dump_offsets_agree_witness:
  "map_option fst (push_all 16 64 [(24, 1::nat), (20, 2)] EntryBuffer_init) = Some [0, 32] \<and>
   dump_loop 16 (m_buffer (snd (the (push_all 16 64 [(24, 1::nat), (20, 2)] EntryBuffer_init)))) 2 0
     = Some [(0, LogEntry 24 1), (32, LogEntry 20 2)] \<and>
   EntryBuffer_dump 16 (snd (the (push_all 16 64 [(24, 1::nat), (20, 2)] EntryBuffer_init)))
     = Returns [Print 1, Print 2]
         (EntryBuffer_clear (snd (the (push_all 16 64 [(24, 1::nat), (20, 2)] EntryBuffer_init))))"
proof -
  obtain offs b' where p: "push_all 16 64 [(24, 1::nat), (20, 2)] EntryBuffer_init = Some (offs, b')"
    by (simp add: EntryBuffer_pushElem_def alignedSize_def EntryBuffer_init_def)
  have o: "offs = [0, 32]"
    using p by (auto simp: EntryBuffer_pushElem_def alignedSize_def EntryBuffer_init_def)
  have c: "m_count b' = 2"
    using p by (auto simp: EntryBuffer_pushElem_def alignedSize_def EntryBuffer_init_def)
  have h1: "m_pos (EntryBuffer_init :: nat EntryBuffer) = 0"
    by (simp add: EntryBuffer_init_def)
  have h2: "m_count (EntryBuffer_init :: nat EntryBuffer) = 0"
    by (simp add: EntryBuffer_init_def)
  have h3: "\<forall>r \<in> set [(24::nat, 1::nat), (20, 2)]. 0 < fst r"
    by simp
  from push_dump_offsets_agree [OF h1 h2 h3 p] show ?thesis
    unfolding p by (simp add: o c entry_of_def)
qed

subsection \<open>The logger\<close>

lemma buffers_pushElem_eq:
  "unat (writeIndex L) < numBuffers L \<Longrightarrow>
   buffers_pushElem A B sz e L =
     Returns [] (fst (EntryBuffer_pushElem A B sz e (buffers L ! unat (writeIndex L))),
       L\<lparr>buffers := (buffers L)[unat (writeIndex L) :=
            snd (EntryBuffer_pushElem A B sz e (buffers L ! unat (writeIndex L)))]\<rparr>)"
  by (simp add: buffers_pushElem_def Let_def split: prod.splits)

lemma pushElem_accepts_iff:
  "fst (EntryBuffer_pushElem A B sz e b) \<longleftrightarrow> alignedSize A sz + m_pos b \<le> B"
  by (simp add: EntryBuffer_pushElem_def Let_def)

lemma pushElem_refused: "\<not> fst (EntryBuffer_pushElem A B sz e b) \<Longrightarrow> snd (EntryBuffer_pushElem A B sz e b) = b"
  by (simp add: EntryBuffer_pushElem_def Let_def split: if_splits)

lemma pushElem_accepted:
  "fst (EntryBuffer_pushElem A B sz e b) \<Longrightarrow>
   m_buffer (snd (EntryBuffer_pushElem A B sz e b)) (m_pos b) = Some (sz, e) \<and>
   m_pos (snd (EntryBuffer_pushElem A B sz e b)) = m_pos b + alignedSize A sz \<and>
   m_count (snd (EntryBuffer_pushElem A B sz e b)) = m_count b + 1"
  by (simp add: EntryBuffer_pushElem_def Let_def store_def split: if_splits)

lemma nextIndex_not_full:
  "\<not> LocalLogger_full L \<Longrightarrow> server L = Some srv \<Longrightarrow>
   LocalLogger_nextIndex h L =
     Returns [Notify srv]
       (L\<lparr>writeIndex := of_nat ((unat (writeIndex L) + 1) mod numBuffers L),
          buffersFull := semaphore_put (buffersFull L)\<rparr>)"
  by (simp add: LocalLogger_nextIndex_def Let_def)

text \<open>
  C3. \<^verbatim>\<open>log\<close> on a registered logger whose \<open>writeIndex\<close> is in range. When all arenas are
  full the hook is called with the "logger full" message and, when it returns, the logger
  is unchanged. Otherwise \<^verbatim>\<open>pushElem\<close> is called on the arena \<open>buffers[writeIndex]\<close> and on
  no other: when it accepts, \<^verbatim>\<open>log\<close> returns with that arena replaced by the one
  \<^verbatim>\<open>pushElem\<close> gives, the record in it at the old \<open>m_pos\<close>. When it refuses, the logger is
  as before, \<^verbatim>\<open>nextIndex\<close> advances \<open>writeIndex\<close> modulo the number of arenas, puts the
  semaphore and notifies the server, and \<^verbatim>\<open>pushElem\<close> is called once more, on the arena
  \<open>writeIndex\<close> now names; when that accepts the record is in that arena. The hook is called
  with the "bigger than buffer" message exactly when that second push is refused as well.
\<close>

theorem log_protocol:
  assumes reg: "server L = Some srv" and idx: "unat (writeIndex L) < numBuffers L"
  shows "(LocalLogger_full L \<longrightarrow>
            LocalLogger_log Returning A B sz vs L = Returns [Error LoggerFull] L \<and>
            LocalLogger_log Terminating A B sz vs L = Exits [Error LoggerFull]) \<and>
         (\<not> LocalLogger_full L \<longrightarrow>
            (let i = unat (writeIndex L);
                 r = EntryBuffer_pushElem A B sz (LogEntry sz vs) (buffers L ! i);
                 L1 = L\<lparr>buffers := (buffers L)[i := snd r]\<rparr>
             in buffers_pushElem A B sz (LogEntry sz vs) L = Returns [] (fst r, L1) \<and>
                (fst r \<longleftrightarrow> alignedSize A sz + m_pos (buffers L ! i) \<le> B) \<and>
                (fst r \<longrightarrow>
                   LocalLogger_log h A B sz vs L = Returns [] L1 \<and>
                   m_buffer (buffers L1 ! i) (m_pos (buffers L ! i)) = Some (sz, LogEntry sz vs) \<and>
                   m_pos (buffers L1 ! i) = m_pos (buffers L ! i) + alignedSize A sz \<and>
                   m_count (buffers L1 ! i) = m_count (buffers L ! i) + 1) \<and>
                (\<not> fst r \<longrightarrow> L1 = L \<and>
                   (let L2 = L\<lparr>writeIndex := of_nat ((i + 1) mod numBuffers L),
                                 buffersFull := semaphore_put (buffersFull L)\<rparr>;
                        j = unat (writeIndex L2);
                        r2 = EntryBuffer_pushElem A B sz (LogEntry sz vs) (buffers L ! j);
                        L3 = L2\<lparr>buffers := (buffers L)[j := snd r2]\<rparr>
                    in LocalLogger_nextIndex h L = Returns [Notify srv] L2 \<and>
                       j < numBuffers L \<and>
                       buffers_pushElem A B sz (LogEntry sz vs) L2 = Returns [] (fst r2, L3) \<and>
                       (fst r2 \<longleftrightarrow> alignedSize A sz + m_pos (buffers L ! j) \<le> B) \<and>
                       (fst r2 \<longrightarrow>
                          LocalLogger_log h A B sz vs L = Returns [Notify srv] L3 \<and>
                          m_buffer (buffers L3 ! j) (m_pos (buffers L ! j)) = Some (sz, LogEntry sz vs) \<and>
                          m_pos (buffers L3 ! j) = m_pos (buffers L ! j) + alignedSize A sz \<and>
                          m_count (buffers L3 ! j) = m_count (buffers L ! j) + 1) \<and>
                       (\<not> fst r2 \<longrightarrow> L3 = L2 \<and>
                          LocalLogger_log Returning A B sz vs L
                            = Returns [Notify srv, Error EntryTooLarge] L2 \<and>
                          LocalLogger_log Terminating A B sz vs L
                            = Exits [Notify srv, Error EntryTooLarge]) \<and>
                       (Error EntryTooLarge \<in> set (events (LocalLogger_log h A B sz vs L))
                          \<longleftrightarrow> \<not> fst r2))) \<and>
                (Error EntryTooLarge \<in> set (events (LocalLogger_log h A B sz vs L))
                   \<longrightarrow> \<not> fst r)))"
proof (intro conjI impI)
  assume "LocalLogger_full L"
  then show "LocalLogger_log Returning A B sz vs L = Returns [Error LoggerFull] L"
    and "LocalLogger_log Terminating A B sz vs L = Exits [Error LoggerFull]"
    by (simp_all add: LocalLogger_log_def)
next
  assume nf: "\<not> LocalLogger_full L"
  define e where "e = LogEntry sz vs"
  define i where "i = unat (writeIndex L)"
  define r where "r = EntryBuffer_pushElem A B sz e (buffers L ! i)"
  define L1 where "L1 = L\<lparr>buffers := (buffers L)[i := snd r]\<rparr>"
  define L2 where "L2 = L\<lparr>writeIndex := of_nat ((i + 1) mod numBuffers L),
                          buffersFull := semaphore_put (buffersFull L)\<rparr>"
  define j where "j = unat (writeIndex L2)"
  define r2 where "r2 = EntryBuffer_pushElem A B sz e (buffers L ! j)"
  define L3 where "L3 = L2\<lparr>buffers := (buffers L)[j := snd r2]\<rparr>"
  have il: "i < length (buffers L)"
    using idx by (simp add: i_def numBuffers_def)
  have p1: "buffers_pushElem A B sz e L = Returns [] (fst r, L1)"
    using idx by (simp add: buffers_pushElem_eq r_def L1_def i_def)
  have a1: "fst r \<longleftrightarrow> alignedSize A sz + m_pos (buffers L ! i) \<le> B"
    by (simp add: r_def pushElem_accepts_iff)
  have adv: "LocalLogger_nextIndex h L = Returns [Notify srv] L2" for h
    using nf reg by (simp add: nextIndex_not_full L2_def i_def)
  have "0 < numBuffers L"
    using idx by simp
  then have jn: "j < numBuffers L"
    using unat_next_index [of "numBuffers L" i] by (simp add: j_def L2_def)
  then have jl: "j < length (buffers L)"
    by (simp add: numBuffers_def)
  have idx2: "unat (writeIndex L2) < numBuffers L2"
    using jn by (simp add: j_def L2_def numBuffers_def)
  have p2: "buffers_pushElem A B sz e L2 = Returns [] (fst r2, L3)"
    using buffers_pushElem_eq [OF idx2, of A B sz e]
    by (simp add: r2_def L3_def j_def L2_def)
  have a2: "fst r2 \<longleftrightarrow> alignedSize A sz + m_pos (buffers L ! j) \<le> B"
    by (simp add: r2_def pushElem_accepts_iff)
  have acc1: "LocalLogger_log h A B sz vs L = Returns [] L1 \<and>
      m_buffer (buffers L1 ! i) (m_pos (buffers L ! i)) = Some (sz, e) \<and>
      m_pos (buffers L1 ! i) = m_pos (buffers L ! i) + alignedSize A sz \<and>
      m_count (buffers L1 ! i) = m_count (buffers L ! i) + 1" if "fst r"
  proof -
    have "LocalLogger_log h A B sz vs L = Returns [] L1"
      using nf p1 that by (simp add: LocalLogger_log_def Let_def e_def [symmetric])
    moreover have "buffers L1 ! i = snd r"
      using il by (simp add: L1_def)
    ultimately show ?thesis
      using pushElem_accepted [of A B sz e "buffers L ! i"] that by (simp add: r_def)
  qed
  have ref1: "L1 = L" if "\<not> fst r"
    using that pushElem_refused [of A B sz e "buffers L ! i"] by (simp add: L1_def r_def)
  have acc2: "LocalLogger_log h A B sz vs L = Returns [Notify srv] L3 \<and>
      m_buffer (buffers L3 ! j) (m_pos (buffers L ! j)) = Some (sz, e) \<and>
      m_pos (buffers L3 ! j) = m_pos (buffers L ! j) + alignedSize A sz \<and>
      m_count (buffers L3 ! j) = m_count (buffers L ! j) + 1" if "\<not> fst r" and "fst r2"
  proof -
    have "LocalLogger_log h A B sz vs L = Returns [Notify srv] L3"
      using nf p1 that adv p2 ref1
      by (simp add: LocalLogger_log_def Let_def e_def [symmetric])
    moreover have "buffers L3 ! j = snd r2"
      using jl by (simp add: L3_def)
    ultimately show ?thesis
      using pushElem_accepted [of A B sz e "buffers L ! j"] that(2) by (simp add: r2_def)
  qed
  have ref2: "L3 = L2 \<and>
      LocalLogger_log Returning A B sz vs L = Returns [Notify srv, Error EntryTooLarge] L2 \<and>
      LocalLogger_log Terminating A B sz vs L = Exits [Notify srv, Error EntryTooLarge]"
    if "\<not> fst r" and "\<not> fst r2"
  proof -
    have "snd r2 = buffers L ! j"
      using that(2) pushElem_refused [of A B sz e "buffers L ! j"] by (simp add: r2_def)
    then have "L3 = L2"
      by (simp add: L3_def L2_def)
    with nf p1 that adv p2 ref1 show ?thesis
      by (simp add: LocalLogger_log_def Let_def e_def [symmetric])
  qed
  have ev2: "Error EntryTooLarge \<in> set (events (LocalLogger_log h A B sz vs L)) \<longleftrightarrow> \<not> fst r2"
    if "\<not> fst r"
  proof (cases "fst r2")
    case True
    with acc2 [OF that] show ?thesis by simp
  next
    case False
    with ref2 [OF that] show ?thesis by (cases h) simp_all
  qed
  have ev1: "Error EntryTooLarge \<in> set (events (LocalLogger_log h A B sz vs L)) \<longrightarrow> \<not> fst r"
    using acc1 by auto
  show "let i = unat (writeIndex L);
                 r = EntryBuffer_pushElem A B sz (LogEntry sz vs) (buffers L ! i);
                 L1 = L\<lparr>buffers := (buffers L)[i := snd r]\<rparr>
             in buffers_pushElem A B sz (LogEntry sz vs) L = Returns [] (fst r, L1) \<and>
                (fst r \<longleftrightarrow> alignedSize A sz + m_pos (buffers L ! i) \<le> B) \<and>
                (fst r \<longrightarrow>
                   LocalLogger_log h A B sz vs L = Returns [] L1 \<and>
                   m_buffer (buffers L1 ! i) (m_pos (buffers L ! i)) = Some (sz, LogEntry sz vs) \<and>
                   m_pos (buffers L1 ! i) = m_pos (buffers L ! i) + alignedSize A sz \<and>
                   m_count (buffers L1 ! i) = m_count (buffers L ! i) + 1) \<and>
                (\<not> fst r \<longrightarrow> L1 = L \<and>
                   (let L2 = L\<lparr>writeIndex := of_nat ((i + 1) mod numBuffers L),
                                 buffersFull := semaphore_put (buffersFull L)\<rparr>;
                        j = unat (writeIndex L2);
                        r2 = EntryBuffer_pushElem A B sz (LogEntry sz vs) (buffers L ! j);
                        L3 = L2\<lparr>buffers := (buffers L)[j := snd r2]\<rparr>
                    in LocalLogger_nextIndex h L = Returns [Notify srv] L2 \<and>
                       j < numBuffers L \<and>
                       buffers_pushElem A B sz (LogEntry sz vs) L2 = Returns [] (fst r2, L3) \<and>
                       (fst r2 \<longleftrightarrow> alignedSize A sz + m_pos (buffers L ! j) \<le> B) \<and>
                       (fst r2 \<longrightarrow>
                          LocalLogger_log h A B sz vs L = Returns [Notify srv] L3 \<and>
                          m_buffer (buffers L3 ! j) (m_pos (buffers L ! j)) = Some (sz, LogEntry sz vs) \<and>
                          m_pos (buffers L3 ! j) = m_pos (buffers L ! j) + alignedSize A sz \<and>
                          m_count (buffers L3 ! j) = m_count (buffers L ! j) + 1) \<and>
                       (\<not> fst r2 \<longrightarrow> L3 = L2 \<and>
                          LocalLogger_log Returning A B sz vs L
                            = Returns [Notify srv, Error EntryTooLarge] L2 \<and>
                          LocalLogger_log Terminating A B sz vs L
                            = Exits [Notify srv, Error EntryTooLarge]) \<and>
                       (Error EntryTooLarge \<in> set (events (LocalLogger_log h A B sz vs L))
                          \<longleftrightarrow> \<not> fst r2))) \<and>
                (Error EntryTooLarge \<in> set (events (LocalLogger_log h A B sz vs L))
                   \<longrightarrow> \<not> fst r)"
    unfolding Let_def
    using p1 a1 acc1 ref1 adv jn p2 a2 acc2 ref2 ev2 ev1
    unfolding e_def i_def r_def L1_def L2_def j_def r2_def L3_def
    by blast
qed

theorem log_protocol_witness:
  "LocalLogger_log Returning 16 64 24 (4::nat)
       ((registered 1 0)\<lparr>buffersFull := semaphore_put semaphore_init\<rparr>)
     = Returns [Error LoggerFull] ((registered 1 0)\<lparr>buffersFull := semaphore_put semaphore_init\<rparr>) \<and>
   LocalLogger_log Terminating 16 64 24 (4::nat)
       ((registered 1 0)\<lparr>buffersFull := semaphore_put semaphore_init\<rparr>)
     = Exits [Error LoggerFull] \<and>
   (\<exists>L'. LocalLogger_log Terminating 16 64 24 (4::nat) ((registered 2 0)\<lparr>writeIndex := 1\<rparr>)
            = Returns [] L' \<and>
         m_buffer (buffers L' ! 1) 0 = Some (24, LogEntry 24 4) \<and>
         m_pos (buffers L' ! 1) = 32 \<and> m_count (buffers L' ! 1) = 1 \<and>
         buffers L' ! 0 = EntryBuffer_init \<and> writeIndex L' = 1) \<and>
   (\<exists>L'. LocalLogger_log Terminating 16 64 24 (4::nat)
            ((registered 2 0)\<lparr>buffers := [EntryBuffer_init\<lparr>m_pos := 48, m_count := 1\<rparr>,
                                             EntryBuffer_init]\<rparr>)
            = Returns [Notify 0] L' \<and>
         writeIndex L' = 1 \<and>
         unat (semaphore_peek (buffersFull L')) = 1 \<and>
         m_buffer (buffers L' ! 1) 0 = Some (24, LogEntry 24 4) \<and>
         m_pos (buffers L' ! 1) = 32 \<and> m_count (buffers L' ! 1) = 1 \<and>
         buffers L' ! 0 = EntryBuffer_init\<lparr>m_pos := 48, m_count := 1\<rparr>) \<and>
   (\<exists>L2. LocalLogger_nextIndex Returning (registered 2 0) = Returns [Notify 0] L2 \<and>
         writeIndex L2 = 1 \<and>
         LocalLogger_log Returning 16 64 128 (4::nat) (registered 2 0)
           = Returns [Notify 0, Error EntryTooLarge] L2 \<and>
         LocalLogger_log Terminating 16 64 128 (4::nat) (registered 2 0)
           = Exits [Notify 0, Error EntryTooLarge])"
proof -
  let ?F = "(registered 1 0 :: nat LocalLogger)\<lparr>buffersFull := semaphore_put semaphore_init\<rparr>"
  let ?E = "registered 2 0 :: nat LocalLogger"
  let ?W = "(registered 2 0 :: nat LocalLogger)\<lparr>writeIndex := 1\<rparr>"
  let ?P = "(registered 2 0 :: nat LocalLogger)\<lparr>buffers :=
              [EntryBuffer_init\<lparr>m_pos := 48, m_count := 1\<rparr>, EntryBuffer_init]\<rparr>"
  note defs = registered_def LocalLogger_init_def numBuffers_def LocalLogger_full_def
    semaphore_peek_def semaphore_put_def semaphore_init_def
  have regF: "server ?F = Some 0" and idxF: "unat (writeIndex ?F) < numBuffers ?F"
    and fullF: "LocalLogger_full ?F"
    by (simp_all add: defs)
  have regE: "server ?E = Some 0" and idxE: "unat (writeIndex ?E) < numBuffers ?E"
    and nfE: "\<not> LocalLogger_full ?E"
    by (simp_all add: defs)
  have regW: "server ?W = Some 0" and idxW: "unat (writeIndex ?W) < numBuffers ?W"
    and nfW: "\<not> LocalLogger_full ?W"
    by (simp_all add: defs)
  have regP: "server ?P = Some 0" and idxP: "unat (writeIndex ?P) < numBuffers ?P"
    and nfP: "\<not> LocalLogger_full ?P"
    by (simp_all add: defs)
  from log_protocol [OF regF idxF, of 16 64 24 4] fullF
  have a: "LocalLogger_log Returning 16 64 24 (4::nat) ?F = Returns [Error LoggerFull] ?F"
    and b: "LocalLogger_log Terminating 16 64 24 (4::nat) ?F = Exits [Error LoggerFull]"
    by blast+
  from log_protocol [OF regW idxW, of 16 64 24 4 Terminating] nfW
  have c: "\<exists>L'. LocalLogger_log Terminating 16 64 24 (4::nat) ?W = Returns [] L' \<and>
         m_buffer (buffers L' ! 1) 0 = Some (24, LogEntry 24 4) \<and>
         m_pos (buffers L' ! 1) = 32 \<and> m_count (buffers L' ! 1) = 1 \<and>
         buffers L' ! 0 = EntryBuffer_init \<and> writeIndex L' = 1"
    by (simp add: Let_def defs alignedSize_def EntryBuffer_init_def)
  from log_protocol [OF regP idxP, of 16 64 24 4 Terminating] nfP
  have d: "\<exists>L'. LocalLogger_log Terminating 16 64 24 (4::nat) ?P = Returns [Notify 0] L' \<and>
         writeIndex L' = 1 \<and>
         unat (semaphore_peek (buffersFull L')) = 1 \<and>
         m_buffer (buffers L' ! 1) 0 = Some (24, LogEntry 24 4) \<and>
         m_pos (buffers L' ! 1) = 32 \<and> m_count (buffers L' ! 1) = 1 \<and>
         buffers L' ! 0 = EntryBuffer_init\<lparr>m_pos := 48, m_count := 1\<rparr>"
    by (simp add: Let_def defs alignedSize_def EntryBuffer_init_def)
  from log_protocol [OF regE idxE, of 16 64 128 4 Returning] nfE
  have e: "\<exists>L2. LocalLogger_nextIndex Returning ?E = Returns [Notify 0] L2 \<and>
         writeIndex L2 = 1 \<and>
         LocalLogger_log Returning 16 64 128 (4::nat) ?E = Returns [Notify 0, Error EntryTooLarge] L2 \<and>
         LocalLogger_log Terminating 16 64 128 (4::nat) ?E = Exits [Notify 0, Error EntryTooLarge]"
    by (simp add: Let_def defs alignedSize_def EntryBuffer_init_def)
  from a b c d e show ?thesis
    by blast
qed

lemma nextIndex_ring:
  assumes "N \<le> 255" and "ring_ok N L" and "LocalLogger_nextIndex h L = Returns es L'"
  shows "ring_ok N L'"
proof (cases "LocalLogger_full L")
  case True
  with assms(3) have "L' = L"
    by (auto simp: LocalLogger_nextIndex_def dest: QUICKLOG_ERROR_Returns)
  with assms(2) show ?thesis by simp
next
  case False
  let ?L2 = "L\<lparr>writeIndex := of_nat ((unat (writeIndex L) + 1) mod numBuffers L),
                buffersFull := semaphore_put (buffersFull L)\<rparr>"
  from False assms(3) have L': "L' = ?L2"
    by (auto simp: LocalLogger_nextIndex_def Let_def split: option.splits
        dest: QUICKLOG_ERROR_Returns)
  from assms(2) have n: "numBuffers L = N" and w: "unat (writeIndex L) < N"
    and p: "unat (semaphore_peek (buffersFull L)) \<le> N"
    by (simp_all add: ring_ok_def)
  from False n p have lt: "unat (semaphore_peek (buffersFull L)) < N"
    by (simp add: LocalLogger_full_def)
  with assms(1) have "unat (semaphore_peek (semaphore_put (buffersFull L))) \<le> N"
    by (simp add: unat_peek_put)
  moreover have "unat (of_nat ((unat (writeIndex L) + 1) mod N) :: 8 word) < N"
    using w by (intro unat_next_index) simp
  ultimately show ?thesis
    using n by (simp add: L' ring_ok_def numBuffers_def)
qed

lemma buffers_pushElem_Returns:
  "buffers_pushElem A B sz e L = Returns es (ok, L') \<Longrightarrow>
   \<exists>bs. L' = L\<lparr>buffers := bs\<rparr> \<and> length bs = length (buffers L)"
  by (auto simp: buffers_pushElem_def Let_def split: if_splits prod.splits)

lemma buffers_pushElem_ring:
  "buffers_pushElem A B sz e L = Returns es (ok, L') \<Longrightarrow> ring_ok N L \<Longrightarrow> ring_ok N L'"
  by (drule buffers_pushElem_Returns) (auto simp: ring_ok_def numBuffers_def)

lemma log_ring:
  assumes "N \<le> 255" and "ring_ok N (L :: 'v LocalLogger)"
    and "LocalLogger_log h A B sz vs L = Returns es L'"
  shows "ring_ok N L'"
proof (cases "LocalLogger_full L")
  case True
  with assms(3) have "L' = L"
    by (auto simp: LocalLogger_log_def dest: QUICKLOG_ERROR_Returns)
  with assms(2) show ?thesis by simp
next
  case False
  with assms(3) obtain es1 ok L1 es2 where
    p1: "buffers_pushElem A B sz (LogEntry sz vs) L = Returns es1 (ok, L1)" and
    rest: "(if \<not> ok then
             then_do (LocalLogger_nextIndex h L1) (\<lambda>L2.
               then_do (buffers_pushElem A B sz (LogEntry sz vs) L2) (\<lambda>(success, L3).
                 if \<not> success then QUICKLOG_ERROR h EntryTooLarge L3 else Returns [] L3))
           else Returns [] L1) = Returns es2 L'"
    by (auto simp: LocalLogger_log_def Let_def then_do_Returns_iff)
  have r1: "ring_ok N L1"
    using p1 assms(2) by (rule buffers_pushElem_ring)
  show ?thesis
  proof (cases ok)
    case True
    with rest r1 show ?thesis by simp
  next
    case False
    with rest have "then_do (LocalLogger_nextIndex h L1) (\<lambda>L2.
               then_do (buffers_pushElem A B sz (LogEntry sz vs) L2) (\<lambda>(success, L3).
                 if \<not> success then QUICKLOG_ERROR h EntryTooLarge L3 else Returns [] L3))
             = Returns es2 L'"
      by simp
    then obtain es3 L2 and es3' :: "'v event list" where
      n: "LocalLogger_nextIndex h L1 = Returns es3 L2" and
      r2: "then_do (buffers_pushElem A B sz (LogEntry sz vs) L2) (\<lambda>(success, L3).
             if \<not> success then QUICKLOG_ERROR h EntryTooLarge L3 else Returns [] L3)
           = Returns es3' L'"
      by (rule then_do_ReturnsE)
    from r2 obtain es4 ok2 L3 and es5 :: "'v event list" where
      p2: "buffers_pushElem A B sz (LogEntry sz vs) L2 = Returns es4 (ok2, L3)" and
      fin: "(if \<not> ok2 then QUICKLOG_ERROR h EntryTooLarge L3 else Returns [] L3) = Returns es5 L'"
      by (rule then_do_pair_ReturnsE)
    have "ring_ok N L2"
      using assms(1) r1 n by (rule nextIndex_ring)
    with p2 have "ring_ok N L3"
      by (rule buffers_pushElem_ring)
    moreover from fin have "L' = L3"
      by (auto split: if_splits dest: QUICKLOG_ERROR_Returns)
    ultimately show ?thesis by simp
  qed
qed

lemma flush_ring:
  "N \<le> 255 \<Longrightarrow> ring_ok N L \<Longrightarrow> LocalLogger_flush h L = Returns es L' \<Longrightarrow> ring_ok N L'"
  by (auto simp: LocalLogger_flush_def Let_def split: if_splits dest: nextIndex_ring)

lemma semaphore_get_numPuts:
  "semaphore_get h s = Returns es s' \<Longrightarrow> numPuts s' = numPuts s"
  by (cases h) (auto simp: semaphore_get_def split: if_splits)

lemma EntryBuffer_dump_Returns:
  "EntryBuffer_dump A b = Returns es b' \<Longrightarrow> b' = EntryBuffer_clear b"
  by (auto simp: EntryBuffer_dump_def split: option.splits)

lemma dump_Returns:
  assumes "LocalLogger_dump h A L = Returns es (did, L')"
  shows "writeIndex L' = writeIndex L \<and> numPuts (buffersFull L') = numPuts (buffersFull L) \<and>
         length (buffers L') = length (buffers L) \<and> server L' = server L \<and>
         (if did then semaphore_peek (buffersFull L) \<noteq> 0 \<and>
                      buffersFull L' = (buffersFull L)\<lparr>numGets := numGets (buffersFull L) + 1\<rparr>
          else L' = L)"
proof (cases "semaphore_peek (buffersFull L) = 0")
  case True
  with assms show ?thesis
    by (simp add: LocalLogger_dump_def)
next
  case False
  with assms show ?thesis
    by (auto simp: LocalLogger_dump_def Let_def then_do_Returns_iff get_nonzero
        split: if_splits)
qed

lemma dump_ring:
  assumes "ring_ok N L" and "LocalLogger_dump h A L = Returns es (did, L')"
  shows "ring_ok N L'"
proof -
  note d = dump_Returns [OF assms(2)]
  show ?thesis
  proof (cases did)
    case True
    with d have nz: "semaphore_peek (buffersFull L) \<noteq> 0"
      and bf: "buffersFull L' = (buffersFull L)\<lparr>numGets := numGets (buffersFull L) + 1\<rparr>"
      by simp_all
    have "unat (semaphore_peek (buffersFull L')) \<le> unat (semaphore_peek (buffersFull L))"
      by (simp add: bf unat_peek_get [OF nz])
    with assms(1) d show ?thesis
      by (simp add: ring_ok_def numBuffers_def)
  next
    case False
    with d assms(1) show ?thesis by simp
  qed
qed

lemma perform_ring:
  "N \<le> 255 \<Longrightarrow> ring_ok N L \<Longrightarrow> perform h A B c L = Returns es L' \<Longrightarrow> ring_ok N L'"
  by (cases c) (auto simp: then_do_Returns_iff dest: log_ring flush_ring dump_ring)

lemma perform_all_ring:
  "N \<le> 255 \<Longrightarrow> ring_ok N L \<Longrightarrow> perform_all h A B cs L = Returns es L' \<Longrightarrow> ring_ok N L'"
proof (induction cs arbitrary: L es)
  case Nil
  then show ?case by simp
next
  case (Cons c cs)
  from Cons.prems(3) obtain es1 L1 es2 where
    "perform h A B c L = Returns es1 L1" and "perform_all h A B cs L1 = Returns es2 L'"
    by (auto simp: then_do_Returns_iff)
  with Cons.IH Cons.prems(1,2) show ?case
    by (blast dest: perform_ring)
qed

lemma init_ring: "0 < N \<Longrightarrow> ring_ok N ((LocalLogger_init N)\<lparr>server := srv\<rparr>)"
  by (simp add: ring_ok_def LocalLogger_init_def numBuffers_def semaphore_peek_def semaphore_init_def)

text \<open>
  C7. With \<open>1 \<le> N \<le> 255\<close> arenas, after any calls of \<^verbatim>\<open>log\<close>, \<^verbatim>\<open>flush\<close> and the
  consumer's \<^verbatim>\<open>dump\<close> from the initial state that return, \<open>buffersFull.peek()\<close> is at most
  \<open>N\<close> (and \<open>writeIndex\<close> is below \<open>N\<close>). When it is \<open>N\<close>: \<^verbatim>\<open>log\<close> only calls the hook (the event is dropped or the process
  ends), \<^verbatim>\<open>flush\<close> does nothing on an empty arena and only calls the hook otherwise, and
  no call that returns changes \<open>numPuts\<close> or \<open>writeIndex\<close>.
\<close>

theorem buffersFull_bounded:
  assumes "1 \<le> N" and "N \<le> 255"
    and "perform_all h A B cs ((LocalLogger_init N)\<lparr>server := srv\<rparr>) = Returns es L"
  shows "numBuffers L = N \<and> unat (writeIndex L) < N \<and>
         unat (semaphore_peek (buffersFull L)) \<le> N \<and>
         (unat (semaphore_peek (buffersFull L)) = N \<longrightarrow>
            (\<forall>h' A' B' sz vs. perform h' A' B' (Log sz vs) L = QUICKLOG_ERROR h' LoggerFull L) \<and>
            (\<forall>h' A' B'. perform h' A' B' Flush L =
               (if EntryBuffer_isEmpty (buffers L ! unat (writeIndex L)) then Returns [] L
                else QUICKLOG_ERROR h' NextIndexFull L)) \<and>
            (\<forall>h' A' B' c es' L'. perform h' A' B' c L = Returns es' L' \<longrightarrow>
               numPuts (buffersFull L') = numPuts (buffersFull L) \<and> writeIndex L' = writeIndex L))"
proof -
  have ok: "ring_ok N L"
    using assms by (intro perform_all_ring [OF assms(2) init_ring assms(3)]) simp
  then have n: "numBuffers L = N" and w: "unat (writeIndex L) < N"
    and p: "unat (semaphore_peek (buffersFull L)) \<le> N"
    by (simp_all add: ring_ok_def)
  have "\<forall>h' A' B' sz vs. perform h' A' B' (Log sz vs) L = QUICKLOG_ERROR h' LoggerFull L"
    and "\<forall>h' A' B'. perform h' A' B' Flush L =
           (if EntryBuffer_isEmpty (buffers L ! unat (writeIndex L)) then Returns [] L
            else QUICKLOG_ERROR h' NextIndexFull L)"
    and "\<forall>h' A' B' c es' L'. perform h' A' B' c L = Returns es' L' \<longrightarrow>
           numPuts (buffersFull L') = numPuts (buffersFull L) \<and> writeIndex L' = writeIndex L"
    if full: "unat (semaphore_peek (buffersFull L)) = N"
  proof -
    from full n have f: "LocalLogger_full L"
      by (simp add: LocalLogger_full_def)
    show lg: "\<forall>h' A' B' sz vs. perform h' A' B' (Log sz vs) L = QUICKLOG_ERROR h' LoggerFull L"
      using f by (simp add: LocalLogger_log_def)
    show fl: "\<forall>h' A' B'. perform h' A' B' Flush L =
           (if EntryBuffer_isEmpty (buffers L ! unat (writeIndex L)) then Returns [] L
            else QUICKLOG_ERROR h' NextIndexFull L)"
      using f w n by (simp add: LocalLogger_flush_def LocalLogger_nextIndex_def)
    show "\<forall>h' A' B' c es' L'. perform h' A' B' c L = Returns es' L' \<longrightarrow>
           numPuts (buffersFull L') = numPuts (buffersFull L) \<and> writeIndex L' = writeIndex L"
    proof (intro allI impI)
      fix h' A' B' c es' L'
      assume r: "perform h' A' B' c L = Returns es' L'"
      show "numPuts (buffersFull L') = numPuts (buffersFull L) \<and> writeIndex L' = writeIndex L"
      proof (cases c)
        case (Log sz vs)
        with r lg have "L' = L" by (auto dest: QUICKLOG_ERROR_Returns)
        then show ?thesis by simp
      next
        case Flush
        with r fl have "L' = L" by (auto split: if_splits dest: QUICKLOG_ERROR_Returns)
        then show ?thesis by simp
      next
        case Drain
        with r show ?thesis
          by (auto simp: then_do_Returns_iff dest: dump_Returns)
      qed
    qed
  qed
  with n w p show ?thesis by blast
qed

theorem buffersFull_bounded_witness:
  "\<exists>es L. perform_all Terminating 16 64 [Log 24 (1::nat), Log 48 2, Log 24 3]
             ((LocalLogger_init 2)\<lparr>server := Some 0\<rparr>) = Returns es L \<and>
          numBuffers L = 2 \<and>
          unat (semaphore_peek (buffersFull L)) = 2 \<and>
          perform Returning 16 64 (Log 24 4) L = Returns [Error LoggerFull] L \<and>
          perform Terminating 16 64 (Log 24 4) L = Exits [Error LoggerFull] \<and>
          perform Returning 16 64 Flush L = Returns [Error NextIndexFull] L"
proof -
  let ?m = "perform_all Terminating 16 64 [Log 24 (1::nat), Log 48 2, Log 24 3]
              ((LocalLogger_init 2)\<lparr>server := Some 0\<rparr>)"
  have "is_Returns ?m"
    by code_simp
  then obtain es L where m: "?m = Returns es L"
    by (rule is_Returns_obtain)
  have "map_option (\<lambda>L. unat (semaphore_peek (buffersFull L))) (returned ?m) = Some 2"
    by code_simp
  then have pk: "unat (semaphore_peek (buffersFull L)) = 2"
    unfolding m by simp
  have "map_option (\<lambda>L. EntryBuffer_isEmpty (buffers L ! unat (writeIndex L))) (returned ?m)
      = Some False"
    by code_simp
  then have ne: "\<not> EntryBuffer_isEmpty (buffers L ! unat (writeIndex L))"
    unfolding m by simp
  have n1: "1 \<le> (2::nat)" and n2: "(2::nat) \<le> 255"
    by simp_all
  from buffersFull_bounded [OF n1 n2 m] pk ne
  have "numBuffers L = 2"
    and "perform Returning 16 64 (Log 24 4) L = QUICKLOG_ERROR Returning LoggerFull L"
    and "perform Terminating 16 64 (Log 24 4) L = QUICKLOG_ERROR Terminating LoggerFull L"
    and "perform Returning 16 64 Flush L = QUICKLOG_ERROR Returning NextIndexFull L"
    by simp_all
  with m pk show ?thesis
    by simp
qed

lemma dump_readIndex:
  assumes "LocalLogger_dump h A L = Returns es (did, L')"
  shows "readIndex L' = (if did then readIndex L + 1 else readIndex L)"
proof (cases "semaphore_peek (buffersFull L) = 0")
  case True
  with assms show ?thesis
    by (simp add: LocalLogger_dump_def)
next
  case False
  with assms show ?thesis
    by (auto simp: LocalLogger_dump_def Let_def then_do_Returns_iff get_nonzero
        split: if_splits)
qed

text \<open>
  C1, at an input where the code leaves it. \<^verbatim>\<open>dump\<close> increments \<open>readIndex\<close> as a byte and
  never reduces it modulo the number of arenas (\<^verbatim>\<open>nextIndex\<close> does reduce \<open>writeIndex\<close>).
  With two arenas, after two rounds of log, flush and drain \<open>readIndex\<close> is 2, and the drain
  of a third round indexes \<open>buffers[2]\<close>, past the end of the array.
\<close>

theorem readIndex_leaves_the_array:
  "map_option (\<lambda>L. (unat (readIndex L), numBuffers L))
     (returned (perform_all Terminating 16 64
        [Log 24 (1::nat), Flush, Drain, Log 24 2, Flush, Drain] (registered 2 0)))
     = Some (2, 2) \<and>
   events (perform_all Terminating 16 64
        [Log 24 (1::nat), Flush, Drain, Log 24 2, Flush, Drain] (registered 2 0))
     = [Notify 0, Print 1, Notify 0, Print 2] \<and>
   is_Undefined (perform_all Terminating 16 64
        [Log 24 (1::nat), Flush, Drain, Log 24 2, Flush, Drain, Log 24 3, Flush, Drain]
        (registered 2 0))"
  by code_simp

text \<open>
  C4, at an input where the code leaves it. Two arenas of 64 bytes, alignment 16, records of
  24, 48 and 24 bytes logged with no drain in between: the third \<^verbatim>\<open>log\<close> advances onto
  arena 0, which the consumer has not drained, and the record fits behind the first one.
  The drains then print the records 1, 3, 2. No hook is called when the drains come before
  the flush; with the flush first, \<^verbatim>\<open>nextIndex\<close> calls the hook, and the order is the same
  when the hook returns.
\<close>

theorem drain_order_broken:
  "is_Returns (perform_all Terminating 16 64
        [Log 24 (1::nat), Log 48 2, Log 24 3, Drain, Drain, Flush] (registered 2 0)) \<and>
   events (perform_all Terminating 16 64
        [Log 24 (1::nat), Log 48 2, Log 24 3, Drain, Drain, Flush] (registered 2 0))
     = [Notify 0, Notify 0, Print 1, Print 3, Print 2] \<and>
   is_Returns (perform_all Returning 16 64
        [Log 24 (1::nat), Log 48 2, Log 24 3, Flush, Drain, Drain] (registered 2 0)) \<and>
   events (perform_all Returning 16 64
        [Log 24 (1::nat), Log 48 2, Log 24 3, Flush, Drain, Drain] (registered 2 0))
     = [Notify 0, Notify 0, Error NextIndexFull, Print 1, Print 3, Print 2]"
  by code_simp

subsection \<open>The server\<close>

lemma EntryBuffer_dump_events:
  "EntryBuffer_dump A b = Returns es b' \<Longrightarrow> \<forall>e \<in> set es. \<not> platform_call e"
  by (auto simp: EntryBuffer_dump_def split: option.splits)

lemma LocalLogger_dump_events:
  assumes "LocalLogger_dump h A L = Returns es (did, L')"
  shows "(\<forall>e \<in> set es. \<not> platform_call e) \<and> (\<not> did \<longrightarrow> L' = L \<and> semaphore_peek (buffersFull L) = 0)"
proof (cases "semaphore_peek (buffersFull L) = 0")
  case True
  with assms show ?thesis
    by (simp add: LocalLogger_dump_def)
next
  case False
  with assms show ?thesis
    by (auto simp: LocalLogger_dump_def Let_def then_do_Returns_iff get_nonzero
        split: if_splits dest: EntryBuffer_dump_events)
qed

lemma dump_each_events:
  "dump_each h A ps d H = Returns es (d', H') \<Longrightarrow>
   (\<forall>e \<in> set es. \<not> platform_call e) \<and> (d \<longrightarrow> d') \<and>
   (\<not> d' \<longrightarrow> H' = H \<and> (\<forall>p \<in> set ps. unread H p = 0))"
proof (induction ps arbitrary: d H es)
  case Nil
  then show ?case by simp
next
  case (Cons p ps)
  from Cons.prems obtain L where L: "H p = Some L"
    by (cases "H p") simp_all
  from Cons.prems L obtain es1 did L' es2 where
    dmp: "LocalLogger_dump h A L = Returns es1 (did, L')" and
    rest: "dump_each h A ps (d \<or> did) (H(p \<mapsto> L')) = Returns es2 (d', H')" and
    es: "es = es1 @ es2"
    by (auto simp: then_do_Returns_iff)
  note a = LocalLogger_dump_events [OF dmp]
  note b = Cons.IH [OF rest]
  have "\<forall>e \<in> set es. \<not> platform_call e"
    using a b es by auto
  moreover have "d \<longrightarrow> d'"
    using b by simp
  moreover have "H' = H \<and> (\<forall>q \<in> set (p # ps). unread H q = 0)" if "\<not> d'"
  proof -
    from that b have nd: "\<not> did" and H': "H' = H(p \<mapsto> L')"
      and z: "\<forall>q \<in> set ps. unread (H(p \<mapsto> L')) q = 0"
      by blast+
    from nd a have same: "L' = L" and zero: "semaphore_peek (buffersFull L) = 0"
      by simp_all
    from same L have "H(p \<mapsto> L') = H"
      by auto
    with H' z zero L show ?thesis
      by (simp add: unread_def)
  qed
  ultimately show ?case by blast
qed

lemma dumpAll_loop_Returns:
  "dumpAll_loop h A ps H = Returns es H' \<Longrightarrow>
   (\<forall>e \<in> set es. \<not> platform_call e) \<and> (\<forall>p \<in> set ps. unread H' p = 0)"
proof (induction h A ps H arbitrary: es rule: dumpAll_loop.induct)
  case (1 h A ps H)
  from "1.prems" obtain es1 d H1 where
    pass: "dump_each h A ps False H = Returns es1 (d, H1)"
    by (subst (asm) dumpAll_loop.simps) (auto split: outcome.splits)
  note ev = dump_each_events [OF pass]
  show ?case
  proof (cases d)
    case True
    with "1.prems" pass obtain es2 where
      again: "dumpAll_loop h A ps H1 = Returns es2 H'" and es: "es = es1 @ es2"
      by (subst (asm) dumpAll_loop.simps) (auto simp: emit_Returns_iff)
    from "1.IH" [OF pass refl True again] ev es show ?thesis
      by auto
  next
    case False
    with "1.prems" pass have "es = es1" and "H' = H1"
      by (subst (asm) dumpAll_loop.simps, simp)+
    with ev False show ?thesis
      by auto
  qed
qed

lemma LogServer_dumpAll_Returns:
  assumes "LogServer_dumpAll h A W = Returns es W'"
  shows "\<exists>body. es = Lock # body @ [Unlock] \<and> (\<forall>e \<in> set body. \<not> platform_call e) \<and>
           logServer W' = logServer W \<and> (\<forall>p \<in> set (registry W'). unread (heap W') p = 0)"
proof -
  from assms obtain body H where
    loop: "dumpAll_loop h A (registry W) (heap W) = Returns body H" and
    W': "W' = W\<lparr>heap := H\<rparr>" and es: "es = Lock # body @ [Unlock]"
    by (auto simp: LogServer_dumpAll_def registry_def emit_Returns_iff then_do_Returns_iff
        split: if_splits)
  from dumpAll_loop_Returns [OF loop] W' es show ?thesis
    by (simp add: registry_def)
qed

text \<open>
  C9. \<^verbatim>\<open>shutdown\<close> clears \<open>run\<close> and notifies the platform. While \<open>run\<close> is set the
  consumer waits, then makes a \<^verbatim>\<open>_dumpAll\<close> pass, then tests \<open>run\<close> again. Once it finds
  \<open>run\<close> cleared it makes one \<^verbatim>\<open>_dumpAll\<close> pass and returns. So whenever the consumer
  returns, its events end with a whole pass (lock, prints, unlock) begun with \<open>run\<close>
  cleared, every earlier pass follows a wait of its own, and no registered logger has a
  full arena left.
\<close>

theorem consumer_loop:
  "LogServer_shutdown self W = Returns [Notify self] (W\<lparr>logServer := (logServer W)\<lparr>run := False\<rparr>\<rparr>) \<and>
   (run (logServer W) \<longrightarrow>
      LogServer_process h A [] W = None \<and>
      LogServer_process h A (e # env) W =
        (case LogServer_dumpAll h A (e W) of
           Returns es W1 \<Rightarrow> map_option (emit (Wait # es)) (LogServer_process h A env W1)
         | Exits es \<Rightarrow> Some (Exits (Wait # es))
         | Undefined \<Rightarrow> Some Undefined)) \<and>
   (\<not> run (logServer W) \<longrightarrow> LogServer_process h A env W = Some (LogServer_dumpAll h A W)) \<and>
   (\<forall>es W'. LogServer_process h A env W = Some (Returns es W') \<longrightarrow>
      (\<exists>es0 W0 body.
         \<not> run (logServer W0) \<and>
         LogServer_dumpAll h A W0 = Returns (Lock # body @ [Unlock]) W' \<and>
         (\<forall>e \<in> set body. \<not> platform_call e) \<and>
         es = es0 @ Lock # body @ [Unlock] \<and>
         count_list es0 Lock = count_list es0 Wait \<and>
         count_list es0 Unlock = count_list es0 Wait \<and>
         (\<forall>p \<in> set (registry W'). unread (heap W') p = 0)))"
proof (intro conjI impI allI)
  show "LogServer_shutdown self W = Returns [Notify self] (W\<lparr>logServer := (logServer W)\<lparr>run := False\<rparr>\<rparr>)"
    by (simp add: LogServer_shutdown_def)
next
  assume "run (logServer W)"
  then show "LogServer_process h A [] W = None"
    and "LogServer_process h A (e # env) W =
        (case LogServer_dumpAll h A (e W) of
           Returns es W1 \<Rightarrow> map_option (emit (Wait # es)) (LogServer_process h A env W1)
         | Exits es \<Rightarrow> Some (Exits (Wait # es))
         | Undefined \<Rightarrow> Some Undefined)"
    by simp_all
next
  assume "\<not> run (logServer W)"
  then show "LogServer_process h A env W = Some (LogServer_dumpAll h A W)"
    by (cases env) simp_all
next
  fix es W'
  assume "LogServer_process h A env W = Some (Returns es W')"
  then show "\<exists>es0 W0 body.
         \<not> run (logServer W0) \<and>
         LogServer_dumpAll h A W0 = Returns (Lock # body @ [Unlock]) W' \<and>
         (\<forall>e \<in> set body. \<not> platform_call e) \<and>
         es = es0 @ Lock # body @ [Unlock] \<and>
         count_list es0 Lock = count_list es0 Wait \<and>
         count_list es0 Unlock = count_list es0 Wait \<and>
         (\<forall>p \<in> set (registry W'). unread (heap W') p = 0)"
  proof (induction env arbitrary: W es)
    case Nil
    then have nr: "\<not> run (logServer W)" and d: "LogServer_dumpAll h A W = Returns es W'"
      by (auto split: if_splits)
    from LogServer_dumpAll_Returns [OF d] obtain body where
      "es = Lock # body @ [Unlock]" "\<forall>e \<in> set body. \<not> platform_call e"
      "\<forall>p \<in> set (registry W'). unread (heap W') p = 0"
      by blast
    with nr d show ?case
      by (intro exI [of _ "[]"] exI [of _ W] exI [of _ body]) simp
  next
    case (Cons e env)
    show ?case
    proof (cases "run (logServer W)")
      case False
      with Cons.prems have d: "LogServer_dumpAll h A W = Returns es W'"
        by simp
      from LogServer_dumpAll_Returns [OF d] obtain body where
        "es = Lock # body @ [Unlock]" "\<forall>e \<in> set body. \<not> platform_call e"
        "\<forall>p \<in> set (registry W'). unread (heap W') p = 0"
        by blast
      with False d show ?thesis
        by (intro exI [of _ "[]"] exI [of _ W] exI [of _ body]) simp
    next
      case True
      with Cons.prems obtain es1 W1 es2 where
        d1: "LogServer_dumpAll h A (e W) = Returns es1 W1" and
        rest: "LogServer_process h A env W1 = Some (Returns es2 W')" and
        es: "es = Wait # es1 @ es2"
        by (auto split: outcome.splits simp: emit_Returns_iff)
      from LogServer_dumpAll_Returns [OF d1] obtain body1 where
        es1: "es1 = Lock # body1 @ [Unlock]" and b1: "\<forall>e \<in> set body1. \<not> platform_call e"
        by blast
      from Cons.IH [OF rest] obtain es0 W0 body where
        fin: "\<not> run (logServer W0)" "LogServer_dumpAll h A W0 = Returns (Lock # body @ [Unlock]) W'"
          "\<forall>e \<in> set body. \<not> platform_call e" "es2 = es0 @ Lock # body @ [Unlock]"
          "count_list es0 Lock = count_list es0 Wait" "count_list es0 Unlock = count_list es0 Wait"
          "\<forall>p \<in> set (registry W'). unread (heap W') p = 0"
        by blast
      have c: "count_list body1 Lock = 0" "count_list body1 Unlock = 0" "count_list body1 Wait = 0"
        using b1 by (auto simp: count_list_0_iff)
      show ?thesis
        using fin es es1 c
        by (intro exI [of _ "Wait # es1 @ es0"] exI [of _ W0] exI [of _ body]) simp
    qed
  qed
qed

theorem consumer_loop_witness:
  "\<exists>es W'. LogServer_process Terminating 16 [shutdown_during_wait] pending_world
              = Some (Returns es W') \<and>
           es = [Wait, Lock, Print 7, Unlock, Lock, Unlock] \<and>
           unread (heap W') 10 = 0 \<and>
           (\<exists>es0 W0 body.
              \<not> run (logServer W0) \<and>
              LogServer_dumpAll Terminating 16 W0 = Returns (Lock # body @ [Unlock]) W' \<and>
              es = es0 @ Lock # body @ [Unlock] \<and>
              count_list es0 Lock = count_list es0 Wait)"
proof -
  let ?r = "LogServer_process Terminating 16 [shutdown_during_wait] pending_world"
  have "finished ?r"
    by code_simp
  then obtain es W' where r: "?r = Some (Returns es W')"
    by (rule finished_obtain)
  have "map_option events ?r = Some [Wait, Lock, Print 7, Unlock, Lock, Unlock]"
    by code_simp
  then have es: "es = [Wait, Lock, Print 7, Unlock, Lock, Unlock]"
    unfolding r by simp
  have "map_option (\<lambda>m. map_option (\<lambda>W. (registry W, unread (heap W) 10)) (returned m)) ?r
      = Some (Some ([10], 0))"
    by code_simp
  then have reg: "registry W' = [10]" and z: "unread (heap W') 10 = 0"
    unfolding r by simp_all
  from consumer_loop [of 0 pending_world Terminating 16 id "[shutdown_during_wait]"] r
  obtain es0 W0 body where
    "\<not> run (logServer W0)"
    "LogServer_dumpAll Terminating 16 W0 = Returns (Lock # body @ [Unlock]) W'"
    "es = es0 @ Lock # body @ [Unlock]"
    "count_list es0 Lock = count_list es0 Wait"
    by blast
  with r es z show ?thesis
    by blast
qed

lemma addLogger_full:
  assumes "nLoggers (logServer W) = maxLoggers (logServer W)" and "heap W p = Some logger"
  shows "LogServer_addLogger Returning self p W
           = Returns [Lock, Error RegistryFull, Unlock]
               (W\<lparr>heap := (heap W)(p \<mapsto> logger\<lparr>server := Some self\<rparr>)\<rparr>)"
    and "LogServer_addLogger Terminating self p W = Exits [Lock, Error RegistryFull]"
  using assms by (simp_all add: LogServer_addLogger_def)

text \<open>
  C6, at an input where the code leaves it. \<^verbatim>\<open>addLogger\<close> on a full registry with a hook
  that returns: the registry and the count stay as they were, and the logger's \<open>server\<close>,
  which was \<^verbatim>\<open>nullptr\<close>, is set to the server all the same.
\<close>

theorem addLogger_full_sets_server:
  "map_option server (heap full_world 11) = Some None \<and>
   events (LogServer_addLogger Returning 0 11 full_world) = [Lock, Error RegistryFull, Unlock] \<and>
   map_option (\<lambda>W. (localLoggers (logServer W), nLoggers (logServer W), map_option server (heap W 11)))
     (returned (LogServer_addLogger Returning 0 11 full_world))
     = Some ([10], 1, Some (Some 0))"
  by code_simp

end
